theory Spec2Isabelle
  imports Complex_Main "HOL-Library.Sublist" "HOL-Library.Word"
begin

section \<open>Data model (scanner/types.ts)\<close>

datatype Severity = LOW | MEDIUM | HIGH | CRITICAL

datatype Source = signature | heuristic

text \<open>
  The type \<open>Finding\<close>. Optional fields are options; \<open>line\<close> is a JavaScript number
  that the scanner only ever fills with integers, \<open>confidence\<close> a number in the unit
  interval. Strings are lists of characters, one character per code unit. The field
  \<open>file\<close> is written \<open>file'\<close>, since \<open>file\<close> is reserved.
\<close>

record Finding =
  ruleId :: string
  severity :: Severity
  message :: string
  file' :: string
  line :: "int option"
  category :: "string option"
  remediation :: "string option"
  source :: "Source option"
  confidence :: "real option"
  confidenceReason :: "string option"

text \<open>A finding used in the worked examples below.\<close>

definition sample_finding :: Finding where
  "sample_finding =
     \<lparr>ruleId = ''R1'', severity = HIGH, message = ''m'', file' = ''a.md'', line = Some 3,
      category = None, remediation = None, source = Some signature, confidence = None,
      confidenceReason = None\<rparr>"

section \<open>Confidence filter (scanner/confidence.ts)\<close>

text \<open>\<^verbatim>\<open>findings.filter((f) => (f.confidence ?? 1.0) >= minConfidence)\<close>\<close>

definition filterByConfidence :: "Finding list \<Rightarrow> real \<Rightarrow> Finding list" where
  "filterByConfidence findings minConfidence =
     filter (\<lambda>f. (case confidence f of None \<Rightarrow> 1.0 | Some c \<Rightarrow> c) \<ge> minConfidence) findings"

section \<open>Meta analyzer (scanner/reporting/meta.ts)\<close>

text \<open>
  The scanner takes the \<open>line\<close> of a finding from \<open>indexToLine\<close>, so it is a whole number,
  and \<open>Finding\<close> has it as an integer. The template literal renders it as
  \<open>Number::toString\<close> does. With \<open>n\<close> the number of decimal digits of a positive number,
  that is the digits themselves when \<open>n\<close> is at most 21; otherwise the digits up to the
  last one that is not zero, with a point after the first digit when there are several,
  then \<open>e+\<close> and \<open>n - 1\<close> in decimal (\<open>1e+21\<close>, \<open>1.5e+21\<close>). A negative number is rendered
  as a minus sign and the rendering of its absolute value, zero as \<open>0\<close>. Up to \<open>2^53\<close>
  every whole number is a number of the runtime and this is its rendering; a larger
  number of the runtime is rendered with the fewest digits that still determine it, and
  is represented here by the integer these digits denote (\<open>2^60\<close> by
  \<open>1152921504606847000\<close>), so that the rendering is the same.
\<close>

definition digit :: "nat \<Rightarrow> char" where
  "digit d = ''0123456789'' ! d"

fun showNat :: "nat \<Rightarrow> string" where
  "showNat n = (if n < 10 then [digit n] else showNat (n div 10) @ [digit (n mod 10)])"

definition mantissa :: "string \<Rightarrow> string" where
  "mantissa s = (if length s = 1 then s else hd s # CHR ''.'' # tl s)"

definition Number_toString_pos :: "nat \<Rightarrow> string" where
  "Number_toString_pos x =
     (let digits = showNat x;
          n = length digits
      in if n \<le> 21 then digits
         else
           let s = rev (dropWhile (\<lambda>c. c = CHR ''0'') (rev digits))
           in mantissa s @ ''e+'' @ showNat (n - 1))"

definition Number_toString :: "int \<Rightarrow> string" where
  "Number_toString x =
     (if x < 0 then CHR ''-'' # Number_toString_pos (nat (- x)) else Number_toString_pos (nat x))"

text \<open>
  \<^verbatim>\<open>`${finding.ruleId}|${finding.file}|${finding.line ?? ""}|${finding.message}`\<close>
\<close>

definition finding_key :: "Finding \<Rightarrow> string" where
  "finding_key finding =
     ruleId finding @ ''|'' @ file' finding @ ''|''
       @ (case line finding of None \<Rightarrow> '''' | Some l \<Rightarrow> Number_toString l) @ ''|'' @ message finding"

text \<open>
  The \<open>Map\<close> named \<open>seen\<close> is an association list in insertion order, which is the order
  \<open>seen.values()\<close> enumerates. A key that is present is never set again.
\<close>

fun applyMetaAnalyzer_loop ::
  "Finding list \<Rightarrow> (string \<times> Finding) list \<Rightarrow> (string \<times> Finding) list" where
  "applyMetaAnalyzer_loop [] seen = seen"
| "applyMetaAnalyzer_loop (finding # rest) seen =
     (let key = finding_key finding
      in if map_of seen key \<noteq> None then applyMetaAnalyzer_loop rest seen
         else applyMetaAnalyzer_loop rest (seen @ [(key, finding)]))"

definition applyMetaAnalyzer :: "Finding list \<Rightarrow> Finding list" where
  "applyMetaAnalyzer findings = map snd (applyMetaAnalyzer_loop findings [])"

text \<open>The four fields the specification names as the dedup key.\<close>

definition dedup_tuple :: "Finding \<Rightarrow> string \<times> string \<times> int option \<times> string" where
  "dedup_tuple f = (ruleId f, file' f, line f, message f)"

text \<open>The findings whose key has not been seen before, given the keys seen so far.\<close>

fun first_by_key :: "string list \<Rightarrow> Finding list \<Rightarrow> Finding list" where
  "first_by_key ks [] = []"
| "first_by_key ks (f # fs) =
     (if finding_key f \<in> set ks then first_by_key ks fs
      else f # first_by_key (finding_key f # ks) fs)"

section \<open>Scan cache (scanner/cache.ts)\<close>

record CacheEntry =
  hash :: string
  findings :: "Finding list"
  timestamp :: int
  ruleVersion :: string

text \<open>
  The class \<open>ScanCache\<close>, with the fields a cache write reads or changes. The \<open>Map\<close> is an
  association list in insertion order (the order \<open>entries()\<close> enumerates), one pair per
  path. \<open>maxSizeBytes\<close> is \<open>maxSizeMB * 1024 * 1024\<close>, which need not be whole.
\<close>

record ScanCache =
  cache :: "(string \<times> CacheEntry) list"
  cacheRuleVersion :: string
  dirty :: bool
  maxEntries :: int
  maxSizeBytes :: real

text \<open>\<open>Map.prototype.delete\<close> and \<open>Map.prototype.set\<close> on the association list.\<close>

fun map_delete :: "(string \<times> 'v) list \<Rightarrow> string \<Rightarrow> (string \<times> 'v) list" where
  "map_delete [] k = []"
| "map_delete ((k', v) # m) k = (if k' = k then m else (k', v) # map_delete m k)"

fun map_set :: "(string \<times> 'v) list \<Rightarrow> string \<Rightarrow> 'v \<Rightarrow> (string \<times> 'v) list" where
  "map_set [] k v = [(k, v)]"
| "map_set ((k', v') # m) k v = (if k' = k then (k, v) # m else (k', v') # map_set m k v)"

text \<open>
  The loop of \<open>evictOldestEntry\<close>: \<open>oldestPath\<close> starts as \<open>null\<close> and \<open>oldestTimestamp\<close> as
  \<open>Infinity\<close> (here \<open>None\<close>), and an entry replaces them when its timestamp is strictly
  smaller.
\<close>

fun evict_scan ::
  "(string \<times> CacheEntry) list \<Rightarrow> string option \<times> int option \<Rightarrow> string option \<times> int option" where
  "evict_scan [] acc = acc"
| "evict_scan ((path, entry) # rest) (oldestPath, oldestTimestamp) =
     (if (case oldestTimestamp of None \<Rightarrow> True | Some t \<Rightarrow> timestamp entry < t)
      then evict_scan rest (Some path, Some (timestamp entry))
      else evict_scan rest (oldestPath, oldestTimestamp))"

text \<open>\<open>if (oldestPath)\<close> is false for \<open>null\<close> and for the empty string.\<close>

definition evictOldestEntry :: "ScanCache \<Rightarrow> ScanCache" where
  "evictOldestEntry c =
     (if length (cache c) = 0 then c
      else case fst (evict_scan (cache c) (None, None)) of
             None \<Rightarrow> c
           | Some oldestPath \<Rightarrow>
               if oldestPath = '''' then c
               else c\<lparr>cache := map_delete (cache c) oldestPath, dirty := True\<rparr>)"

fun estimateCacheSize_entries :: "(string \<times> CacheEntry) list \<Rightarrow> nat" where
  "estimateCacheSize_entries [] = 0"
| "estimateCacheSize_entries ((path, entry) # rest) =
     92 + length (findings entry) * 500 + estimateCacheSize_entries rest"

definition estimateCacheSize :: "ScanCache \<Rightarrow> nat" where
  "estimateCacheSize c = estimateCacheSize_entries (cache c)"

text \<open>
  The two checks of \<open>doSetCachedFindings\<close> that precede the insertion; each is an \<open>if\<close>
  and calls \<open>evictOldestEntry\<close> once.
\<close>

definition evictBeforeInsert :: "ScanCache \<Rightarrow> ScanCache" where
  "evictBeforeInsert c =
     (let c1 = (if int (length (cache c)) \<ge> maxEntries c then evictOldestEntry c else c);
          estimatedSize = estimateCacheSize c1
      in if real estimatedSize \<ge> maxSizeBytes c1 then evictOldestEntry c1 else c1)"

text \<open>
  \<open>doSetCachedFindings\<close>, after the file has been hashed: \<open>fileHash\<close> is the value of
  \<open>hashFile(filePath)\<close> and \<open>now\<close> that of \<open>Date.now()\<close>.
\<close>

definition doSetCachedFindings ::
  "ScanCache \<Rightarrow> string \<Rightarrow> Finding list \<Rightarrow> string \<Rightarrow> int \<Rightarrow> ScanCache" where
  "doSetCachedFindings c filePath fs fileHash now =
     (let c2 = evictBeforeInsert c
      in c2\<lparr>cache := map_set (cache c2) filePath
                \<lparr>hash = fileHash, findings = fs, timestamp = now,
                 ruleVersion = cacheRuleVersion c2\<rparr>,
            dirty := True\<rparr>)"

text \<open>
  \<open>new ScanCache(dir, "1.0", maxAge, maxEntries, maxSizeMB)\<close> before anything is loaded.
\<close>

definition new_ScanCache :: "int \<Rightarrow> real \<Rightarrow> ScanCache" where
  "new_ScanCache maxEntries_arg maxSizeMB =
     \<lparr>cache = [], cacheRuleVersion = ''1.0'', dirty = False, maxEntries = maxEntries_arg,
      maxSizeBytes = maxSizeMB * 1024 * 1024\<rparr>"

text \<open>The path \<open>evictOldestEntry\<close> selects: the first entry with the least timestamp.\<close>

definition oldestPath_of :: "(string \<times> CacheEntry) list \<Rightarrow> string option" where
  "oldestPath_of m = fst (evict_scan m (None, None))"

text \<open>
  A full cache of three entries, the second and the third equally old and older than the
  first, and a cache as \<open>load\<close> leaves it for a cache file with more entries than
  \<open>maxEntries\<close> (\<open>load\<close> sets every entry it reads); used in worked examples.
\<close>

definition full_cache :: ScanCache where
  "full_cache =
     \<lparr>cache = [(''a.md'', \<lparr>hash = ''h1'', findings = [], timestamp = 5, ruleVersion = ''1.0''\<rparr>),
               (''b.md'', \<lparr>hash = ''h2'', findings = [], timestamp = 3, ruleVersion = ''1.0''\<rparr>),
               (''c.md'', \<lparr>hash = ''h3'', findings = [], timestamp = 3, ruleVersion = ''1.0''\<rparr>)],
      cacheRuleVersion = ''1.0'', dirty = False, maxEntries = 3, maxSizeBytes = 104857600\<rparr>"

definition loaded_cache :: ScanCache where
  "loaded_cache =
     \<lparr>cache = [(''a.md'', \<lparr>hash = ''h1'', findings = [], timestamp = 5, ruleVersion = ''1.0''\<rparr>),
               (''b.md'', \<lparr>hash = ''h2'', findings = [], timestamp = 3, ruleVersion = ''1.0''\<rparr>)],
      cacheRuleVersion = ''1.0'', dirty = False, maxEntries = 1, maxSizeBytes = 104857600\<rparr>"

section \<open>MCP client retry (scanner/mcp/client-http.ts)\<close>

text \<open>
  What a call can throw: an \<open>McpRpcError\<close> with its optional \<open>code\<close> (a number), some other
  value (\<open>error instanceof McpRpcError\<close> is false), or the \<open>Error("Retry failed")\<close> of
  \<open>retryWithBackoff\<close> itself.
\<close>

datatype rpc_error = McpRpcError "real option" | OtherError | RetryFailed

text \<open>
  \<^verbatim>\<open>error.code === -32601 || (error.code && error.code >= 400 && error.code < 500)\<close>
  under \<^verbatim>\<open>error instanceof McpRpcError\<close>.
\<close>

fun is_client_error :: "rpc_error \<Rightarrow> bool" where
  "is_client_error (McpRpcError (Some code)) =
     (code = - 32601 \<or> (code \<noteq> 0 \<and> code \<ge> 400 \<and> code < 500))"
| "is_client_error _ = False"

fun isMethodNotFound :: "rpc_error \<Rightarrow> bool" where
  "isMethodNotFound (McpRpcError (Some code)) = (code = - 32601)"
| "isMethodNotFound _ = False"

text \<open>
  The loop of \<open>retryWithBackoff\<close>. The request \<open>fn\<close> has effects, so it is given as the
  outcome of each of its invocations (\<open>fn k\<close> for the invocation made in attempt \<open>k\<close>:
  \<open>Inl\<close> what it throws, \<open>Inr\<close> what it returns), and \<open>Math.random()\<close> likewise as the
  value \<open>random k\<close> drawn in attempt \<open>k\<close>. The result is what the function returns or
  throws, the number of invocations of \<open>fn\<close>, and the delays waited, in order.
\<close>

function retry_loop ::
  "(nat \<Rightarrow> rpc_error + 'a) \<Rightarrow> int \<Rightarrow> real \<Rightarrow> (nat \<Rightarrow> real) \<Rightarrow>
   nat \<Rightarrow> rpc_error option \<Rightarrow> real list \<Rightarrow> (rpc_error + 'a) \<times> nat \<times> real list" where
  "retry_loop fn maxRetries baseDelayMs random attempt lastError delays =
     (if int attempt \<le> maxRetries then
        (case fn attempt of
           Inr v \<Rightarrow> (Inr v, Suc attempt, delays)
         | Inl error \<Rightarrow>
             if is_client_error error then (Inl error, Suc attempt, delays)
             else if int attempt = maxRetries then (Inl error, Suc attempt, delays)
             else
               let delay = baseDelayMs * 2 ^ attempt;
                   jitter = random attempt * 0.3 * delay;
                   totalDelay = delay + jitter
               in retry_loop fn maxRetries baseDelayMs random (Suc attempt) (Some error)
                    (delays @ [totalDelay]))
      else (Inl (case lastError of Some e \<Rightarrow> e | None \<Rightarrow> RetryFailed), attempt, delays))"
  by pat_completeness auto
termination
  by (relation "measure (\<lambda>(fn, maxRetries, baseDelayMs, random, attempt, lastError, delays).
        nat (maxRetries + 1 - int attempt))") auto

definition retryWithBackoff ::
  "(nat \<Rightarrow> rpc_error + 'a) \<Rightarrow> int \<Rightarrow> real \<Rightarrow> (nat \<Rightarrow> real) \<Rightarrow>
   (rpc_error + 'a) \<times> nat \<times> real list" where
  "retryWithBackoff fn maxRetries baseDelayMs random =
     retry_loop fn maxRetries baseDelayMs random 0 None []"

text \<open>The delay waited after the failed attempt \<open>k\<close>.\<close>

definition backoff_delay :: "real \<Rightarrow> (nat \<Rightarrow> real) \<Rightarrow> nat \<Rightarrow> real" where
  "backoff_delay baseDelayMs random k =
     baseDelayMs * 2 ^ k + random k * 0.3 * (baseDelayMs * 2 ^ k)"

section \<open>MCP resource text (scanner/mcp/collect.ts)\<close>

text \<open>
  Here the length of a string in UTF-16 code units and the length of its UTF-8 encoding
  both matter, so a string is the list of its code units.
\<close>

type_synonym utf16 = "16 word list"

text \<open>
  \<^verbatim>\<open>new TextEncoder().encode(s).byteLength\<close>: one byte below U+0080, two below U+0800,
  four for a surrogate pair, three otherwise (a lone surrogate is encoded as U+FFFD).
\<close>

fun utf8_byteLength :: "utf16 \<Rightarrow> nat" where
  "utf8_byteLength [] = 0"
| "utf8_byteLength (c # cs) =
     (if c < 0x80 then 1 + utf8_byteLength cs
      else if c < 0x800 then 2 + utf8_byteLength cs
      else if 0xD800 \<le> c \<and> c \<le> 0xDBFF then
        (case cs of
           [] \<Rightarrow> 3
         | d # ds \<Rightarrow>
             if 0xDC00 \<le> d \<and> d \<le> 0xDFFF then 4 + utf8_byteLength ds
             else 3 + utf8_byteLength cs)
      else 3 + utf8_byteLength cs)"

text \<open>\<open>Array.prototype.join\<close>.\<close>

fun js_join :: "'a list \<Rightarrow> 'a list list \<Rightarrow> 'a list" where
  "js_join sep [] = []"
| "js_join sep [p] = p"
| "js_join sep (p # q # ps) = p @ sep @ js_join sep (q # ps)"

text \<open>
  An element of \<open>raw.contents\<close> counts through its \<open>text\<close> only: \<open>Some t\<close> when the element
  is an object whose \<open>text\<close> is the string \<open>t\<close>, \<open>None\<close> otherwise. A \<open>contents\<close> that is not
  an array is the empty list.
\<close>

type_synonym content_item = "utf16 option"

definition text_parts :: "content_item list \<Rightarrow> utf16 list" where
  "text_parts contents = List.map_filter (\<lambda>item. item) contents"

definition pickTextContent :: "content_item list \<Rightarrow> int \<Rightarrow> utf16 option" where
  "pickTextContent contents maxBytes =
     (let parts = text_parts contents
      in if length parts = 0 then None
         else
           let joined = js_join [0x0A] parts
           in if int (utf8_byteLength joined) > maxBytes
              then Some (take (nat (max 0 maxBytes)) joined)
              else Some joined)"

text \<open>
  What \<open>collectFromServer\<close> stores for a resource that was read: \<open>if (text)\<close> drops \<open>null\<close>
  and the empty string.
\<close>

definition storedContent :: "content_item list \<Rightarrow> int \<Rightarrow> utf16 option" where
  "storedContent contents maxResourceBytes =
     (case pickTextContent contents maxResourceBytes of
        None \<Rightarrow> None
      | Some t \<Rightarrow> if t = [] then None else Some t)"

section \<open>Rule engine (scanner/engine/rule-engine.ts)\<close>

definition MAX_FINDINGS_PER_RULE_PER_FILE :: nat where
  "MAX_FINDINGS_PER_RULE_PER_FILE = 20"

subsection \<open>Regular expression objects\<close>

text \<open>
  A JavaScript \<open>RegExp\<close> compiled with the \<open>g\<close> flag (\<open>loadRulesFromText\<close> compiles every
  pattern and every exclude pattern with \<open>"g"\<close> or \<open>"gi"\<close>). The pattern and its flags are
  fixed at construction and are represented by what they denote: \<open>find s k\<close> is the
  leftmost match of the pattern in \<open>s\<close> that starts at index \<open>k\<close> or later, as its start
  index and its length. \<open>lastIndex\<close> is the mutable property of the object. Every \<open>RegExp\<close>
  object is held in one place, as \<open>loadRulesFromText\<close> creates them.
\<close>

record RegExp =
  find :: "string \<Rightarrow> nat \<Rightarrow> (nat \<times> nat) option"
  lastIndex :: nat

text \<open>
  \<open>RegExp.prototype.exec\<close> of a global expression: the search starts at \<open>lastIndex\<close>; a
  match moves \<open>lastIndex\<close> to its end, a failure (also \<open>lastIndex\<close> beyond the end of the
  string) resets it to 0. \<open>RegExp.prototype.test\<close> is \<open>exec(s) !== null\<close>, with the same
  effect on \<open>lastIndex\<close>.
\<close>

definition regex_exec :: "RegExp \<Rightarrow> string \<Rightarrow> (nat \<times> nat) option \<times> RegExp" where
  "regex_exec re s =
     (if lastIndex re > length s then (None, re\<lparr>lastIndex := 0\<rparr>)
      else case find re s (lastIndex re) of
             None \<Rightarrow> (None, re\<lparr>lastIndex := 0\<rparr>)
           | Some (i, n) \<Rightarrow> (Some (i, n), re\<lparr>lastIndex := i + n\<rparr>))"

definition regex_test :: "RegExp \<Rightarrow> string \<Rightarrow> bool \<times> RegExp" where
  "regex_test re s = (case regex_exec re s of (m, re') \<Rightarrow> (m \<noteq> None, re'))"

text \<open>
  What the engine guarantees of a match found from position \<open>k\<close>: it starts at \<open>k\<close> or
  later and ends within the string.
\<close>

definition regex_wf :: "RegExp \<Rightarrow> bool" where
  "regex_wf re \<longleftrightarrow>
     (\<forall>s k i n. k \<le> length s \<and> find re s k = Some (i, n) \<longrightarrow> k \<le> i \<and> i + n \<le> length s)"

text \<open>A pattern without metacharacters: the leftmost occurrence of \<open>pat\<close> from \<open>k\<close> on.\<close>

fun find_literal_from :: "string \<Rightarrow> string \<Rightarrow> nat \<Rightarrow> nat \<Rightarrow> (nat \<times> nat) option" where
  "find_literal_from pat [] pos k = (if pat = [] \<and> k \<le> pos then Some (pos, 0) else None)"
| "find_literal_from pat (c # cs) pos k =
     (if k \<le> pos \<and> prefix pat (c # cs) then Some (pos, length pat)
      else find_literal_from pat cs (Suc pos) k)"

definition literal_regex :: "string \<Rightarrow> RegExp" where
  "literal_regex pat = \<lparr>find = (\<lambda>s k. find_literal_from pat s 0 k), lastIndex = 0\<rparr>"

subsection \<open>Rules\<close>

text \<open>
  \<open>CompiledRule\<close> with the fields \<open>scanContent\<close> reads; \<open>compiled\<close> and \<open>excludeCompiled\<close>
  are \<open>_compiled\<close> and \<open>_excludeCompiled\<close>.
\<close>

record CompiledRule =
  rule_id :: string
  rule_category :: string
  rule_severity :: Severity
  file_types :: "string list"
  description :: "string option"
  rule_remediation :: "string option"
  compiled :: "RegExp list"
  excludeCompiled :: "RegExp list"

subsection \<open>Line numbers\<close>

fun buildLineIndex_loop :: "string \<Rightarrow> nat \<Rightarrow> nat list" where
  "buildLineIndex_loop [] i = []"
| "buildLineIndex_loop (c # cs) i =
     (if c = CHR 0x0A then [i + 1] else []) @ buildLineIndex_loop cs (i + 1)"

definition buildLineIndex :: "string \<Rightarrow> nat list" where
  "buildLineIndex content = 0 # buildLineIndex_loop content 0"

text \<open>
  The binary search of \<open>indexToLine\<close>. An index outside the array reads \<open>undefined\<close>, and
  \<open>undefined <= position\<close> is false.
\<close>

function indexToLine_loop :: "nat list \<Rightarrow> nat \<Rightarrow> int \<Rightarrow> int \<Rightarrow> int" where
  "indexToLine_loop lineIndex position low high =
     (if low \<le> high then
        (let mid = (low + high) div 2
         in if 0 \<le> mid \<and> nat mid < length lineIndex \<and> lineIndex ! nat mid \<le> position
            then indexToLine_loop lineIndex position (mid + 1) high
            else indexToLine_loop lineIndex position low (mid - 1))
      else low)"
  by pat_completeness auto
termination
  by (relation "measure (\<lambda>(lineIndex, position, low, high). nat (high - low + 1))") auto

definition indexToLine :: "nat list \<Rightarrow> nat \<Rightarrow> int" where
  "indexToLine lineIndex position =
     max 1 (indexToLine_loop lineIndex position 0 (int (length lineIndex) - 1))"

subsection \<open>Matching\<close>

definition isFileTypeMatch :: "CompiledRule \<Rightarrow> string \<Rightarrow> bool" where
  "isFileTypeMatch rule fileType \<longleftrightarrow>
     fileType \<in> set (file_types rule) \<or> ''any'' \<in> set (file_types rule)"

text \<open>
  \<open>Array.prototype.some\<close> over the exclude expressions with \<open>re.test(match)\<close>: it stops at
  the first expression that matches, and every expression tested keeps the \<open>lastIndex\<close>
  the test left.
\<close>

fun some_test :: "RegExp list \<Rightarrow> string \<Rightarrow> bool \<times> RegExp list" where
  "some_test [] m = (False, [])"
| "some_test (re # res) m =
     (case regex_test re m of
        (True, re') \<Rightarrow> (True, re' # res)
      | (False, re') \<Rightarrow> (case some_test res m of (b, res') \<Rightarrow> (b, re' # res')))"

definition isExcluded :: "RegExp list \<Rightarrow> string \<Rightarrow> bool \<times> RegExp list" where
  "isExcluded excludes m = (if length excludes = 0 then (False, excludes) else some_test excludes m)"

text \<open>
  Time is read with \<open>Date.now()\<close>; \<open>now k\<close> is the value of the \<open>k\<close>-th reading and a
  counter of readings is threaded through. \<open>execWithTimeout\<close> reads the clock before and
  after \<open>regex.exec\<close> and answers \<open>null\<close> when more than \<open>timeoutMs\<close> went by.
\<close>

definition execWithTimeout ::
  "(nat \<Rightarrow> int) \<Rightarrow> RegExp \<Rightarrow> string \<Rightarrow> int \<Rightarrow> nat \<Rightarrow> (nat \<times> nat) option \<times> RegExp \<times> nat" where
  "execWithTimeout now regex content timeoutMs tick =
     (let startTime = now tick;
          (m, regex') = regex_exec regex content
      in if now (tick + 1) - startTime > timeoutMs then (None, regex', tick + 2)
         else (m, regex', tick + 2))"

text \<open>The variables the \<open>while\<close> loop of \<open>scanContent\<close> reads and writes.\<close>

record loop_state =
  ls_regex :: RegExp
  ls_excludes :: "RegExp list"
  ls_ruleHits :: nat
  ls_findings :: "Finding list"
  ls_tick :: nat

datatype 'a step = Continue 'a | Break 'a

definition new_finding :: "CompiledRule \<Rightarrow> string \<Rightarrow> int \<Rightarrow> Finding" where
  "new_finding rule filePath lineNo =
     \<lparr>ruleId = rule_id rule, severity = rule_severity rule,
      message = (case description rule of Some d \<Rightarrow> d | None \<Rightarrow> ''Matched rule '' @ rule_id rule),
      file' = filePath, line = Some lineNo, category = Some (rule_category rule),
      remediation = rule_remediation rule, source = Some signature, confidence = None,
      confidenceReason = None\<rparr>"

text \<open>
  One evaluation of the loop condition followed, when a match came back, by one run of
  the loop body: \<open>Break\<close> when the loop is left (no match, or a \<open>break\<close>), \<open>Continue\<close>
  when the condition is evaluated again.
\<close>

definition match_step ::
  "int \<Rightarrow> (nat \<Rightarrow> int) \<Rightarrow> CompiledRule \<Rightarrow> string \<Rightarrow> string \<Rightarrow> nat list \<Rightarrow> int \<Rightarrow>
   loop_state \<Rightarrow> loop_state step" where
  "match_step regexTimeoutMs now rule content filePath lineIndex regexStartTime st =
     (case execWithTimeout now (ls_regex st) content regexTimeoutMs (ls_tick st) of
        (None, regex', tick') \<Rightarrow> Break (st\<lparr>ls_regex := regex', ls_tick := tick'\<rparr>)
      | (Some (index, len), regex', tick') \<Rightarrow>
          if now tick' - regexStartTime > regexTimeoutMs * 5
          then Break (st\<lparr>ls_regex := regex', ls_tick := tick' + 1\<rparr>)
          else if len = 0
          then Continue (st\<lparr>ls_regex := regex'\<lparr>lastIndex := lastIndex regex' + 1\<rparr>,
                            ls_tick := tick' + 1\<rparr>)
          else
            (case isExcluded (ls_excludes st) (take len (drop index content)) of
               (True, excludes') \<Rightarrow>
                 Continue (st\<lparr>ls_regex := regex', ls_excludes := excludes', ls_tick := tick' + 1\<rparr>)
             | (False, excludes') \<Rightarrow>
                 (let lineNo = indexToLine lineIndex index;
                      st' = st\<lparr>ls_regex := regex', ls_excludes := excludes',
                               ls_ruleHits := ls_ruleHits st + 1,
                               ls_findings := ls_findings st @ [new_finding rule filePath lineNo],
                               ls_tick := tick' + 1\<rparr>
                  in if ls_ruleHits st' \<ge> MAX_FINDINGS_PER_RULE_PER_FILE then Break st'
                     else Continue st')))"

text \<open>
  The \<open>while\<close> loop. Nothing in its text bounds the number of iterations, so it is a
  partial function: \<open>None\<close> stands for a loop that does not end.
\<close>

partial_function (option) match_loop ::
  "int \<Rightarrow> (nat \<Rightarrow> int) \<Rightarrow> CompiledRule \<Rightarrow> string \<Rightarrow> string \<Rightarrow> nat list \<Rightarrow> int \<Rightarrow>
   loop_state \<Rightarrow> loop_state option" where
  "match_loop regexTimeoutMs now rule content filePath lineIndex regexStartTime st =
     (case match_step regexTimeoutMs now rule content filePath lineIndex regexStartTime st of
        Break st' \<Rightarrow> Some st'
      | Continue st' \<Rightarrow>
          match_loop regexTimeoutMs now rule content filePath lineIndex regexStartTime st')"

declare match_loop.simps [code]

text \<open>
  \<open>for (const regex of rule._compiled)\<close>: the expression is rewound, the clock read, the
  \<open>while\<close> loop run, and the \<open>for\<close> loop left once the rule has its full count of hits.
  The result carries the expressions as the loop leaves them.
\<close>

fun scan_regexes ::
  "int \<Rightarrow> (nat \<Rightarrow> int) \<Rightarrow> CompiledRule \<Rightarrow> string \<Rightarrow> string \<Rightarrow> nat list \<Rightarrow>
   RegExp list \<Rightarrow> RegExp list \<times> nat \<times> Finding list \<times> nat \<Rightarrow>
   (RegExp list \<times> RegExp list \<times> nat \<times> Finding list \<times> nat) option" where
  "scan_regexes regexTimeoutMs now rule content filePath lineIndex [] acc = Some ([], acc)"
| "scan_regexes regexTimeoutMs now rule content filePath lineIndex (regex # rest)
     (excludes, ruleHits, fs, tick) =
     (let regexStartTime = now tick
      in case match_loop regexTimeoutMs now rule content filePath lineIndex regexStartTime
                \<lparr>ls_regex = regex\<lparr>lastIndex := 0\<rparr>, ls_excludes = excludes,
                 ls_ruleHits = ruleHits, ls_findings = fs, ls_tick = tick + 1\<rparr> of
           None \<Rightarrow> None
         | Some st \<Rightarrow>
             if ls_ruleHits st \<ge> MAX_FINDINGS_PER_RULE_PER_FILE
             then Some (ls_regex st # rest,
                        ls_excludes st, ls_ruleHits st, ls_findings st, ls_tick st)
             else
               (case scan_regexes regexTimeoutMs now rule content filePath lineIndex rest
                       (ls_excludes st, ls_ruleHits st, ls_findings st, ls_tick st) of
                  None \<Rightarrow> None
                | Some (rest', acc') \<Rightarrow> Some (ls_regex st # rest', acc')))"

text \<open>\<open>for (const rule of rules)\<close>, with \<open>ruleHits\<close> starting at 0 for every rule.\<close>

fun scan_rules ::
  "int \<Rightarrow> (nat \<Rightarrow> int) \<Rightarrow> string \<Rightarrow> string \<Rightarrow> string \<Rightarrow> nat list \<Rightarrow>
   CompiledRule list \<Rightarrow> Finding list \<times> nat \<Rightarrow>
   (Finding list \<times> CompiledRule list \<times> nat) option" where
  "scan_rules regexTimeoutMs now content filePath fileType lineIndex [] (fs, tick) =
     Some (fs, [], tick)"
| "scan_rules regexTimeoutMs now content filePath fileType lineIndex (rule # rules) (fs, tick) =
     (if \<not> isFileTypeMatch rule fileType
      then (case scan_rules regexTimeoutMs now content filePath fileType lineIndex rules (fs, tick) of
              None \<Rightarrow> None
            | Some (fs', rules', tick') \<Rightarrow> Some (fs', rule # rules', tick'))
      else
        (case scan_regexes regexTimeoutMs now rule content filePath lineIndex (compiled rule)
                (excludeCompiled rule, 0, fs, tick) of
           None \<Rightarrow> None
         | Some (compiled', excludes', ruleHits, fs', tick') \<Rightarrow>
             (case scan_rules regexTimeoutMs now content filePath fileType lineIndex rules
                     (fs', tick') of
                None \<Rightarrow> None
              | Some (fs'', rules', tick'') \<Rightarrow>
                  Some (fs'', rule\<lparr>compiled := compiled', excludeCompiled := excludes'\<rparr> # rules',
                        tick''))))"

text \<open>
  \<open>scanContent\<close>: \<open>regexTimeoutMs\<close> is \<open>config.regexTimeoutMs\<close>, \<open>tick\<close> the number of clock
  readings made before the call. The result is the findings, the rules with their
  expressions as the call leaves them, and the number of clock readings.
\<close>

definition scanContent ::
  "int \<Rightarrow> (nat \<Rightarrow> int) \<Rightarrow> nat \<Rightarrow> string \<Rightarrow> string \<Rightarrow> string \<Rightarrow> CompiledRule list \<Rightarrow>
   (Finding list \<times> CompiledRule list \<times> nat) option" where
  "scanContent regexTimeoutMs now tick content filePath fileType rules =
     (let lineIndex = buildLineIndex content
      in scan_rules regexTimeoutMs now content filePath fileType lineIndex rules ([], tick))"

text \<open>All expressions of a rule list are well formed.\<close>

definition rules_wf :: "CompiledRule list \<Rightarrow> bool" where
  "rules_wf rules \<longleftrightarrow> (\<forall>rule \<in> set rules. \<forall>re \<in> set (compiled rule). regex_wf re)"

text \<open>
  A rule that reports \<open>foo\<close> and excludes matches that contain \<open>foo\<close>; used in worked
  examples.
\<close>

definition foo_rule :: CompiledRule where
  "foo_rule =
     \<lparr>rule_id = ''TEST_RULE'', rule_category = ''test'', rule_severity = HIGH,
      file_types = [''any''], description = None, rule_remediation = None,
      compiled = [literal_regex ''foo''], excludeCompiled = [literal_regex ''foo'']\<rparr>"

text \<open>
  The findings and the hit count grow together: \<open>grows rule (h, fs) (h', fs')\<close> when
  \<open>fs'\<close> is \<open>fs\<close> followed by \<open>h' - h\<close> findings of the rule.
\<close>

definition grows :: "CompiledRule \<Rightarrow> nat \<times> Finding list \<Rightarrow> nat \<times> Finding list \<Rightarrow> bool" where
  "grows rule a b \<longleftrightarrow>
     (\<exists>new. snd b = snd a @ new \<and> fst b = fst a + length new
        \<and> (\<forall>f \<in> set new. ruleId f = rule_id rule))"

text \<open>Further rules and a content of thirty lines, used in worked examples.\<close>

definition foo_rule_plain :: CompiledRule where
  "foo_rule_plain = foo_rule\<lparr>excludeCompiled := []\<rparr>"

definition empty_pattern_rule :: CompiledRule where
  "empty_pattern_rule = foo_rule\<lparr>compiled := [literal_regex ''''], excludeCompiled := []\<rparr>"

definition thirty_foo :: string where
  "thirty_foo = concat (replicate 30 ''foo\<newline>'')"

text \<open>The state in which the loop starts on the empty pattern, with no clock reading made.\<close>

definition empty_pattern_start :: loop_state where
  "empty_pattern_start =
     \<lparr>ls_regex = literal_regex '''', ls_excludes = [], ls_ruleHits = 0, ls_findings = [],
      ls_tick = 0\<rparr>"

section \<open>Fix applier (scanner/fix.ts)\<close>

text \<open>
  File contents are lists of UTF-16 code units; \<open>js\<close> writes an ASCII literal as one.
  File paths stay strings, as in \<open>Finding\<close>.
\<close>

definition js :: "string \<Rightarrow> utf16" where
  "js s = map of_char s"

text \<open>
  The characters that \<open>\s\<close>, \<open>trim\<close> and \<open>trimStart\<close> treat as white space (WhiteSpace and
  LineTerminator of ECMAScript), and those that \<open>.\<close> does not match.
\<close>

definition isSpace :: "16 word \<Rightarrow> bool" where
  "isSpace c \<longleftrightarrow>
     c = 0x09 \<or> c = 0x0A \<or> c = 0x0B \<or> c = 0x0C \<or> c = 0x0D \<or> c = 0x20 \<or> c = 0xA0
     \<or> c = 0x1680 \<or> (0x2000 \<le> c \<and> c \<le> 0x200A) \<or> c = 0x2028 \<or> c = 0x2029
     \<or> c = 0x202F \<or> c = 0x205F \<or> c = 0x3000 \<or> c = 0xFEFF"

definition isLineTerminator :: "16 word \<Rightarrow> bool" where
  "isLineTerminator c \<longleftrightarrow> c = 0x0A \<or> c = 0x0D \<or> c = 0x2028 \<or> c = 0x2029"

definition trimStart :: "utf16 \<Rightarrow> utf16" where
  "trimStart s = dropWhile isSpace s"

definition trim :: "utf16 \<Rightarrow> utf16" where
  "trim s = rev (dropWhile isSpace (rev (dropWhile isSpace s)))"

datatype CommentStyle = Prefix utf16 | Wrap utf16 utf16





definition isAlreadyCommented :: "utf16 \<Rightarrow> CommentStyle \<Rightarrow> bool" where
  "isAlreadyCommented txt style =
     (let trimmed = trimStart txt
      in case style of
           Prefix v \<Rightarrow> prefix v trimmed
         | Wrap s e \<Rightarrow> prefix (js ''<!--'') trimmed \<and> suffix (js ''-->'') trimmed)"

text \<open>
  \<^verbatim>\<open>line.match(/^(\s*)(.*)$/)\<close>: the white space at the start and the rest of the line,
  when the rest holds no line terminator; no match otherwise (\<open>.\<close> does not match a line
  terminator and \<open>$\<close> only matches at the end).
\<close>

definition match_indent :: "utf16 \<Rightarrow> (utf16 \<times> utf16) option" where
  "match_indent txt =
     (if list_ex isLineTerminator (dropWhile isSpace txt) then None
      else Some (takeWhile isSpace txt, dropWhile isSpace txt))"

definition commentLine :: "utf16 \<Rightarrow> CommentStyle \<Rightarrow> utf16" where
  "commentLine txt style =
     (let m = match_indent txt;
          indent = (case m of Some (i, c) \<Rightarrow> i | None \<Rightarrow> []);
          content = (case m of Some (i, c) \<Rightarrow> c | None \<Rightarrow> txt)
      in case style of
           Prefix v \<Rightarrow>
             if length (trim content) = 0 then txt else indent @ v @ js '' '' @ content
         | Wrap s e \<Rightarrow>
             if length (trim content) = 0 then txt else indent @ s @ content @ e)"




text \<open>\<^verbatim>\<open>content.split(/\r?\n/)\<close> and \<^verbatim>\<open>content.includes(s)\<close>.\<close>

fun cons_first :: "'a \<Rightarrow> 'a list list \<Rightarrow> 'a list list" where
  "cons_first c [] = [[c]]"
| "cons_first c (l # ls) = (c # l) # ls"


fun js_includes :: "'a list \<Rightarrow> 'a list \<Rightarrow> bool" where
  "js_includes [] pat = (pat = [])"
| "js_includes (c # cs) pat = (prefix pat (c # cs) \<or> js_includes cs pat)"

text \<open>
  The loop over the line numbers of one file: \<open>split\<close> and \<open>changed\<close> are the variables it
  writes.
\<close>

fun fix_lines :: "CommentStyle \<Rightarrow> int list \<Rightarrow> utf16 list \<times> bool \<Rightarrow> utf16 list \<times> bool" where
  "fix_lines style [] acc = acc"
| "fix_lines style (lineNumber # rest) (split, changed) =
     (let index = lineNumber - 1
      in if index < 0 \<or> index \<ge> int (length split) then fix_lines style rest (split, changed)
         else
           let original = split ! nat index
           in if isAlreadyCommented original style then fix_lines style rest (split, changed)
              else
                let updated = commentLine original style
                in if updated \<noteq> original
                   then fix_lines style rest (split[nat index := updated], True)
                   else fix_lines style rest (split, changed))"





subsection \<open>Notions used in the proofs\<close>


definition fix_line :: "CommentStyle \<Rightarrow> utf16 \<Rightarrow> utf16" where
  "fix_line style txt = (if isAlreadyCommented txt style then txt else commentLine txt style)"







section \<open>Path sanitization (utils/fs.ts)\<close>

subsection \<open>The path module of the runtime, on POSIX\<close>

text \<open>
  \<open>sanitizePath\<close> is built on \<open>path.normalize\<close> and \<open>path.resolve\<close>, which belong to the
  runtime and not to the repository. They are modelled here as they work on POSIX, on
  lists of UTF-16 code units and by segments: \<open>normalizeString\<close> walks the segments between slashes, drops empty segments
  and \<open>.\<close>, lets \<open>..\<close> remove the segment before it (unless that is \<open>..\<close> itself or
  there is none; then \<open>..\<close> is kept when \<open>allowAboveRoot\<close> holds and dropped otherwise),
  and joins what is left with slashes.
\<close>

abbreviation (input) CHAR_FORWARD_SLASH :: "16 word" where
  "CHAR_FORWARD_SLASH \<equiv> 0x2F"

abbreviation (input) CHAR_DOT :: "16 word" where
  "CHAR_DOT \<equiv> 0x2E"

fun split_on :: "'a \<Rightarrow> 'a list \<Rightarrow> 'a list list" where
  "split_on sep [] = [[]]"
| "split_on sep (c # cs) =
     (if c = sep then [] # split_on sep cs else cons_first c (split_on sep cs))"

fun normalize_segments :: "bool \<Rightarrow> utf16 list \<Rightarrow> utf16 list \<Rightarrow> utf16 list" where
  "normalize_segments allowAboveRoot [] res = res"
| "normalize_segments allowAboveRoot (seg # rest) res =
     (if seg = [] \<or> seg = [CHAR_DOT] then normalize_segments allowAboveRoot rest res
      else if seg = [CHAR_DOT, CHAR_DOT] then
        (if res \<noteq> [] \<and> last res \<noteq> [CHAR_DOT, CHAR_DOT]
         then normalize_segments allowAboveRoot rest (butlast res)
         else if allowAboveRoot then normalize_segments allowAboveRoot rest (res @ [[CHAR_DOT, CHAR_DOT]])
         else normalize_segments allowAboveRoot rest res)
      else normalize_segments allowAboveRoot rest (res @ [seg]))"

definition normalizeString :: "utf16 \<Rightarrow> bool \<Rightarrow> utf16" where
  "normalizeString path allowAboveRoot =
     js_join [CHAR_FORWARD_SLASH]
       (normalize_segments allowAboveRoot (split_on CHAR_FORWARD_SLASH path) [])"

definition path_normalize :: "utf16 \<Rightarrow> utf16" where
  "path_normalize path =
     (if length path = 0 then [CHAR_DOT]
      else
        let isAbsolute = (hd path = CHAR_FORWARD_SLASH);
            trailingSeparator = (last path = CHAR_FORWARD_SLASH);
            p = normalizeString path (\<not> isAbsolute)
        in if length p = 0
           then (if isAbsolute then [CHAR_FORWARD_SLASH]
                 else if trailingSeparator then [CHAR_DOT, CHAR_FORWARD_SLASH] else [CHAR_DOT])
           else
             let p' = (if trailingSeparator then p @ [CHAR_FORWARD_SLASH] else p)
             in if isAbsolute then CHAR_FORWARD_SLASH # p' else p')"

text \<open>
  \<open>path.resolve\<close> with one argument; \<open>cwd\<close> is the value of \<open>process.cwd()\<close>. Empty paths
  are skipped, and the working directory is only consulted when the argument is not
  absolute.
\<close>

definition path_resolve :: "utf16 \<Rightarrow> utf16 \<Rightarrow> utf16" where
  "path_resolve cwd path =
     (let (resolvedPath, resolvedAbsolute) =
            (if length path = 0 then ([], False)
             else (path @ [CHAR_FORWARD_SLASH], hd path = CHAR_FORWARD_SLASH));
          (resolvedPath, resolvedAbsolute) =
            (if resolvedAbsolute \<or> length cwd = 0 then (resolvedPath, resolvedAbsolute)
             else (cwd @ [CHAR_FORWARD_SLASH] @ resolvedPath, hd cwd = CHAR_FORWARD_SLASH));
          resolvedPath = normalizeString resolvedPath (\<not> resolvedAbsolute)
      in if resolvedAbsolute then CHAR_FORWARD_SLASH # resolvedPath
         else if length resolvedPath > 0 then resolvedPath else [CHAR_DOT])"

subsection \<open>sanitizePath\<close>

text \<open>
  \<open>String.prototype.replace\<close> reads its replacement string as a pattern: \<open>$$\<close> stands for
  a dollar sign (\<open>0x24\<close>), \<open>$&\<close> for the matched text, \<open>$`\<close> and \<open>$'\<close> for the text
  before and after the match. The expression \<open>/^~/\<close> has no groups, so no other pattern
  applies.
\<close>

fun expand_replacement :: "utf16 \<Rightarrow> utf16 \<Rightarrow> utf16 \<Rightarrow> utf16 \<Rightarrow> utf16" where
  "expand_replacement matched beforeText afterText [] = []"
| "expand_replacement matched beforeText afterText [c] = [c]"
| "expand_replacement matched beforeText afterText (c # d # r) =
     (if c = 0x24 \<and> d = 0x24 then 0x24 # expand_replacement matched beforeText afterText r
      else if c = 0x24 \<and> d = 0x26 then matched @ expand_replacement matched beforeText afterText r
      else if c = 0x24 \<and> d = 0x60 then beforeText @ expand_replacement matched beforeText afterText r
      else if c = 0x24 \<and> d = 0x27 then afterText @ expand_replacement matched beforeText afterText r
      else c # expand_replacement matched beforeText afterText (d # r))"

text \<open>
  \<open>sanitizePath\<close>; \<open>cwd\<close> and \<open>home\<close> are the values of \<open>process.cwd()\<close> and \<open>homedir()\<close>,
  \<open>0x7E\<close> is the tilde.
\<close>

definition sanitizePath :: "utf16 \<Rightarrow> utf16 \<Rightarrow> utf16 \<Rightarrow> utf16" where
  "sanitizePath cwd home path =
     (let cleaned = filter (\<lambda>c. c \<noteq> 0x00) path;
          cleaned =
            (if prefix [0x7E, CHAR_FORWARD_SLASH] cleaned \<or> cleaned = [0x7E]
             then expand_replacement [0x7E] [] (tl cleaned) home @ tl cleaned
             else cleaned)
      in path_resolve cwd (path_normalize cleaned))"

text \<open>
  A segment that \<open>normalizeString\<close> keeps as it is, and the shape of an absolute normal
  path.
\<close>

definition clean_segment :: "utf16 \<Rightarrow> bool" where
  "clean_segment seg \<longleftrightarrow> seg \<noteq> [] \<and> seg \<noteq> [CHAR_DOT] \<and> seg \<noteq> [CHAR_DOT, CHAR_DOT]
     \<and> CHAR_FORWARD_SLASH \<notin> set seg"

definition abs_normal :: "utf16 \<Rightarrow> bool" where
  "abs_normal p \<longleftrightarrow> (\<exists>segs. list_all clean_segment segs
        \<and> p = CHAR_FORWARD_SLASH # js_join [CHAR_FORWARD_SLASH] segs)"

section \<open>MCP client request (scanner/mcp/client-http.ts)\<close>

text \<open>
  The reply to a request, as the closure in \<open>rpc\<close> reads it. \<open>JSON.parse\<close> belongs to the
  runtime and is a parameter of the model: \<open>None\<close> when it throws, the parsed value
  otherwise. Of a parsed value the closure reads whether it is \<open>null\<close>, whether it is an
  object, its member \<open>error\<close> and whether it has a member \<open>result\<close>. The member \<open>error\<close> is
  read through the type \<open>RpcError\<close>, whose \<open>code\<close> is a number when it is there; \<open>message\<close>
  and \<open>data\<close> only go into the error that is thrown. In \<open>JObject\<close> the first argument is
  the member \<open>error\<close> when it is truthy (\<open>None\<close> when it is absent, \<open>null\<close>, \<open>false\<close>, \<open>0\<close> or
  the empty string), the second the member \<open>result\<close> when there is one. A scalar is a
  boolean, a number or a string; scalars and arrays have neither member.
\<close>

record RpcError =
  code :: "real option"

datatype 'a json = JNull | JScalar | JArray | JObject "RpcError option" "'a option"

text \<open>\<open>json && json.error\<close> and \<open>json?.error\<close>, when truthy; then \<open>err?.code\<close>.\<close>

fun json_error :: "'a json \<Rightarrow> RpcError option" where
  "json_error (JObject err res) = err"
| "json_error _ = None"

definition err_code :: "'a json \<Rightarrow> real option" where
  "err_code json = (case json_error json of None \<Rightarrow> None | Some err \<Rightarrow> code err)"

text \<open>
  One invocation of the closure meets one of three things: \<open>fetch\<close> rejects (the network
  fails, or the timer aborts the request), \<open>res.text()\<close> rejects (the same, while the body
  is read), or there is a response with its status and body text. \<open>res.ok\<close> holds for the
  statuses from 200 to 299.
\<close>

datatype fetched = FetchRejected | TextRejected | Response int utf16

definition res_ok :: "int \<Rightarrow> bool" where
  "res_ok status \<longleftrightarrow> 200 \<le> status \<and> status \<le> 299"

text \<open>
  The text handed to \<open>JSON.parse\<close>: the body, or for a body that starts with \<open>event:\<close> the
  first of its lines that starts with \<open>data:\<close>, without these five characters and
  trimmed. An empty text stands for \<open>null\<close>.
\<close>

definition jsonText_of :: "utf16 \<Rightarrow> utf16" where
  "jsonText_of text =
     (if prefix (js ''event:'') text then
        (case List.find (\<lambda>line. prefix (js ''data:'') line) (split_on 0x0A text) of
           Some dataLine \<Rightarrow> trim (drop 5 dataLine)
         | None \<Rightarrow> text)
      else text)"

definition parse_body :: "(utf16 \<Rightarrow> 'a json option) \<Rightarrow> utf16 \<Rightarrow> 'a json option" where
  "parse_body JSON_parse text =
     (let jsonText = jsonText_of text
      in if jsonText \<noteq> [] then JSON_parse jsonText else Some JNull)"

text \<open>
  The closure that \<open>rpc\<close> hands to \<open>retryWithBackoff\<close>: \<open>Inl\<close> what it throws, \<open>Inr\<close> the
  \<open>result\<close> it returns. A rejected \<open>fetch\<close> becomes an \<open>McpRpcError\<close> without code, a body
  that does not parse one with the status as code, a response that is not \<open>ok\<close> one with
  \<^verbatim>\<open>err?.code ?? res.status\<close>, an \<open>ok\<close> response with an error member one with \<open>err.code\<close>,
  and a response without \<open>result\<close> one without code. A rejected \<open>res.text()\<close> is thrown as
  it is.
\<close>

definition request :: "(utf16 \<Rightarrow> 'a json option) \<Rightarrow> fetched \<Rightarrow> rpc_error + 'a" where
  "request JSON_parse fetched =
     (case fetched of
        FetchRejected \<Rightarrow> Inl (McpRpcError None)
      | TextRejected \<Rightarrow> Inl OtherError
      | Response status text \<Rightarrow>
          (case parse_body JSON_parse text of
             None \<Rightarrow> Inl (McpRpcError (Some (of_int status)))
           | Some json \<Rightarrow>
               if \<not> res_ok status then
                 Inl (McpRpcError
                        (Some (case err_code json of None \<Rightarrow> of_int status | Some c \<Rightarrow> c)))
               else
                 (case json_error json of
                    Some err \<Rightarrow> Inl (McpRpcError (code err))
                  | None \<Rightarrow>
                      (case json of
                         JObject err (Some res) \<Rightarrow> Inr res
                       | _ \<Rightarrow> Inl (McpRpcError None)))))"

record RpcOptions =
  opt_maxRetries :: "int option"
  opt_retryDelayMs :: "real option"

text \<open>
  \<open>rpc\<close>: \<^verbatim>\<open>options?.maxRetries ?? 3\<close> and \<^verbatim>\<open>options?.retryDelayMs ?? 1000\<close>, then
  \<open>retryWithBackoff\<close> around the closure; \<open>fetch k\<close> is what invocation \<open>k\<close> of the closure
  meets.
\<close>

definition rpc ::
  "(utf16 \<Rightarrow> 'a json option) \<Rightarrow> (nat \<Rightarrow> fetched) \<Rightarrow> RpcOptions \<Rightarrow> (nat \<Rightarrow> real) \<Rightarrow>
   (rpc_error + 'a) \<times> nat \<times> real list" where
  "rpc JSON_parse fetch options random =
     retryWithBackoff (\<lambda>k. request JSON_parse (fetch k))
       (case opt_maxRetries options of None \<Rightarrow> 3 | Some m \<Rightarrow> m)
       (case opt_retryDelayMs options of None \<Rightarrow> 1000 | Some d \<Rightarrow> d)
       random"

text \<open>
  The default options, and servers used in worked examples. The first is unreachable,
  then answers 503, then 404, each time with an empty body. The second answers every
  request with the status 404 and the body \<open>{"error":{"code":-32000}}\<close> (\<open>0x22\<close> is the
  quotation mark); \<open>error_parse\<close> is \<open>JSON.parse\<close> as far as this body goes.
\<close>

definition default_options :: RpcOptions where
  "default_options = \<lparr>opt_maxRetries = None, opt_retryDelayMs = None\<rparr>"

definition flaky_fetch :: "nat \<Rightarrow> fetched" where
  "flaky_fetch k =
     (if k = 0 then FetchRejected else if k = 1 then Response 503 [] else Response 404 [])"

definition no_parse :: "utf16 \<Rightarrow> unit json option" where
  "no_parse text = None"

definition error_body :: utf16 where
  "error_body =
     js ''{'' @ [0x22] @ js ''error'' @ [0x22] @ js '':{'' @ [0x22] @ js ''code'' @ [0x22]
       @ js '':-32000}}''"

definition error_parse :: "utf16 \<Rightarrow> unit json option" where
  "error_parse text =
     (if text = error_body then Some (JObject (Some \<lparr>code = Some (- 32000)\<rparr>) None) else None)"

definition error_fetch :: "nat \<Rightarrow> fetched" where
  "error_fetch k = Response 404 error_body"

section \<open>Theorems\<close>

subsection \<open>Confidence filter\<close>

text \<open>
  Claim C10. For every threshold \<open>minConfidence \<le> 1.0\<close>, \<open>filterByConfidence\<close> keeps every
  finding whose \<open>confidence\<close> field is absent (the missing value counts as 1.0): the
  findings without a confidence are the same, in the same order and number, before and
  after the filter.
\<close>

theorem filterByConfidence_keeps_absent:
  assumes "minConfidence \<le> 1"
  shows "filter (\<lambda>f. confidence f = None) (filterByConfidence F minConfidence)
       = filter (\<lambda>f. confidence f = None) F"
proof -
  have "\<And>f. confidence f = None \<Longrightarrow>
          (case confidence f of None \<Rightarrow> 1.0 | Some c \<Rightarrow> c) \<ge> minConfidence"
    using assms by simp
  then show ?thesis
    unfolding filterByConfidence_def filter_filter
    by (intro filter_cong) auto
qed

text \<open>
  At the threshold 0.5, a finding without confidence stays and one scored 0.2 goes.
\<close>

theorem filterByConfidence_keeps_absent_witness:
  "(0.5 :: real) \<le> 1
   \<and> filter (\<lambda>f. confidence f = None)
        (filterByConfidence [sample_finding, sample_finding\<lparr>confidence := Some 0.2\<rparr>] 0.5)
       = [sample_finding]
   \<and> filterByConfidence [sample_finding, sample_finding\<lparr>confidence := Some 0.2\<rparr>] 0.5
       = [sample_finding]"
proof -
  have h: "(0.5 :: real) \<le> 1" by simp
  show ?thesis
    using h filterByConfidence_keeps_absent
      [OF h, of "[sample_finding, sample_finding\<lparr>confidence := Some 0.2\<rparr>]"]
    by (simp add: filterByConfidence_def sample_finding_def)
qed

subsection \<open>Meta analyzer\<close>

lemma distinct_key_count:
  "distinct (map k xs) \<Longrightarrow>
   length (filter (\<lambda>x. k x = v) xs) = (if v \<in> set (map k xs) then 1 else 0)"
  by (induction xs) auto

text \<open>Decimal digits.\<close>

declare showNat.simps [simp del]

lemma showNat_small: "n < 10 \<Longrightarrow> showNat n = [digit n]"
  by (subst showNat.simps) simp

lemma showNat_large:
  "\<not> n < 10 \<Longrightarrow> showNat n = showNat (n div 10) @ [digit (n mod 10)]"
  by (subst showNat.simps) simp

lemma showNat_nonempty: "showNat n \<noteq> []"
  by (cases "n < 10") (simp_all add: showNat_small showNat_large)

lemma digit_in: "d < 10 \<Longrightarrow> digit d \<in> set ''0123456789''"
  unfolding digit_def by (rule nth_mem) simp

lemma digit_inj:
  assumes "j < 10" "k < 10" "digit j = digit k"
  shows "j = k"
proof -
  have "distinct ''0123456789''" by simp
  moreover have "j < length ''0123456789''" "k < length ''0123456789''" using assms(1,2) by simp_all
  ultimately show ?thesis using assms(3) unfolding digit_def by (simp only: nth_eq_iff_index_eq)
qed

lemma showNat_digits: "set (showNat n) \<subseteq> set ''0123456789''"
proof (induction n rule: showNat.induct)
  case (1 n)
  show ?case
  proof (cases "n < 10")
    case True
    with digit_in [of n] show ?thesis by (simp add: showNat_small)
  next
    case False
    have "digit (n mod 10) \<in> set ''0123456789''" by (rule digit_in) simp
    with False "1.IH" show ?thesis by (simp add: showNat_large)
  qed
qed

lemma showNat_not:
  "CHR ''|'' \<notin> set (showNat n)" "CHR ''-'' \<notin> set (showNat n)" "CHR ''e'' \<notin> set (showNat n)"
  "CHR ''.'' \<notin> set (showNat n)" "CHR ''+'' \<notin> set (showNat n)"
  using showNat_digits [of n] by auto

lemma showNat_inj: "showNat m = showNat n \<Longrightarrow> m = n"
proof (induction m arbitrary: n rule: showNat.induct)
  case (1 m)
  show ?case
  proof (cases "m < 10")
    case True
    then have m: "showNat m = [digit m]" by (rule showNat_small)
    show ?thesis
    proof (cases "n < 10")
      case n: True
      then have "showNat n = [digit n]" by (rule showNat_small)
      with m "1.prems" True n show ?thesis by (auto dest: digit_inj)
    next
      case False
      then have "showNat n = showNat (n div 10) @ [digit (n mod 10)]"
        by (rule showNat_large)
      with m "1.prems" showNat_nonempty [of "n div 10"] show ?thesis
        by (cases "showNat (n div 10)") auto
    qed
  next
    case False
    then have m: "showNat m = showNat (m div 10) @ [digit (m mod 10)]"
      by (rule showNat_large)
    show ?thesis
    proof (cases "n < 10")
      case True
      then have "showNat n = [digit n]" by (rule showNat_small)
      with m "1.prems" showNat_nonempty [of "m div 10"] show ?thesis
        by (cases "showNat (m div 10)") auto
    next
      case n: False
      then have "showNat n = showNat (n div 10) @ [digit (n mod 10)]"
        by (rule showNat_large)
      with m "1.prems" have e: "showNat (m div 10) = showNat (n div 10)"
        and c: "digit (m mod 10) = digit (n mod 10)"
        by simp_all
      from "1.IH" [OF False e] have d: "m div 10 = n div 10" .
      have "m mod 10 = n mod 10" using c by (intro digit_inj) simp_all
      with d show ?thesis by (metis div_mult_mod_eq)
    qed
  qed
qed

lemma showNat_hd: "0 < n \<Longrightarrow> hd (showNat n) \<noteq> CHR ''0''"
proof (induction n rule: showNat.induct)
  case (1 n)
  show ?case
  proof (cases "n < 10")
    case True
    have "digit n \<noteq> digit 0"
      using digit_inj [of n 0] True "1.prems" by auto
    then have "digit n \<noteq> CHR ''0''" by (simp add: digit_def)
    with True show ?thesis by (simp add: showNat_small)
  next
    case False
    then have "0 < n div 10" by simp
    with "1.IH" [OF False] have "hd (showNat (n div 10)) \<noteq> CHR ''0''" by simp
    with False showNat_nonempty [of "n div 10"] show ?thesis by (simp add: showNat_large)
  qed
qed

text \<open>The digits up to the last one that is not zero.\<close>

lemma strip_recover:
  "rev (dropWhile (\<lambda>c. c = z) (rev ds))
     @ replicate (length ds - length (rev (dropWhile (\<lambda>c. c = z) (rev ds)))) z = ds"
proof -
  define t where "t = takeWhile (\<lambda>c. c = z) (rev ds)"
  define d where "d = dropWhile (\<lambda>c. c = z) (rev ds)"
  have td: "t @ d = rev ds" by (simp add: t_def d_def)
  then have ds: "ds = rev d @ rev t" by (metis rev_append rev_rev_ident)
  have "\<forall>x \<in> set t. x = z" unfolding t_def by (auto dest: set_takeWhileD)
  then have t: "t = replicate (length t) z" by (simp add: replicate_length_same)
  have "length ds = length d + length t" using ds by simp
  then have "length ds - length (rev d) = length t" by simp
  moreover have "rev t = replicate (length t) z" using t by (metis rev_replicate)
  ultimately show ?thesis using ds unfolding d_def by simp
qed

lemma strip_nonempty:
  assumes "ds \<noteq> []" "hd ds \<noteq> z"
  shows "rev (dropWhile (\<lambda>c. c = z) (rev ds)) \<noteq> []"
proof -
  from assms have "hd ds \<in> set (rev ds)" by simp
  with assms(2) have "\<not> (\<forall>c \<in> set (rev ds). c = z)" by blast
  then show ?thesis by (simp add: dropWhile_eq_Nil_conv)
qed

lemma strip_set: "set (rev (dropWhile P (rev ds))) \<subseteq> set ds"
  using set_dropWhileD [of _ P "rev ds"] by auto

lemma append_sep_eq:
  "sep \<notin> set a \<Longrightarrow> sep \<notin> set a' \<Longrightarrow> a @ sep # b = a' @ sep # b' \<Longrightarrow> a = a' \<and> b = b'"
proof (induction a arbitrary: a')
  case Nil
  then show ?case by (cases a') auto
next
  case (Cons x a)
  then show ?case by (cases a') auto
qed

text \<open>\<open>Number::toString\<close> on whole numbers.\<close>

lemma mantissa_filter:
  "s \<noteq> [] \<Longrightarrow> CHR ''.'' \<notin> set s \<Longrightarrow> filter (\<lambda>c. c \<noteq> CHR ''.'') (mantissa s) = s"
  by (cases s) (auto simp: mantissa_def filter_id_conv)

lemma mantissa_set: "s \<noteq> [] \<Longrightarrow> set (mantissa s) \<subseteq> insert CHR ''.'' (set s)"
  by (cases s) (auto simp: mantissa_def)

lemma Number_toString_pos_plain:
  "length (showNat x) \<le> 21 \<Longrightarrow> Number_toString_pos x = showNat x"
  by (simp add: Number_toString_pos_def)

lemma Number_toString_pos_exp:
  "\<not> length (showNat x) \<le> 21 \<Longrightarrow>
   Number_toString_pos x
     = mantissa (rev (dropWhile (\<lambda>c. c = CHR ''0'') (rev (showNat x))))
         @ CHR ''e'' # CHR ''+'' # showNat (length (showNat x) - 1)"
  by (simp add: Number_toString_pos_def Let_def)

lemma stripped_digits:
  assumes "\<not> length (showNat x) \<le> 21"
  defines "s \<equiv> rev (dropWhile (\<lambda>c. c = CHR ''0'') (rev (showNat x)))"
  shows "s \<noteq> []" "set s \<subseteq> set (showNat x)" "set (mantissa s) \<subseteq> insert CHR ''.'' (set (showNat x))"
proof -
  have "x \<noteq> 0"
  proof
    assume "x = 0"
    then have "length (showNat x) = 1" by (simp add: showNat_small)
    with assms(1) show False by simp
  qed
  then have "hd (showNat x) \<noteq> CHR ''0''" by (intro showNat_hd) simp
  with showNat_nonempty show ne: "s \<noteq> []" unfolding s_def by (rule strip_nonempty)
  show sub: "set s \<subseteq> set (showNat x)" unfolding s_def by (rule strip_set)
  from mantissa_set [OF ne] sub
  show "set (mantissa s) \<subseteq> insert CHR ''.'' (set (showNat x))" by blast
qed

lemma Number_toString_pos_chars:
  assumes "c \<in> set (Number_toString_pos x)"
  shows "c \<in> set (showNat x) \<or> c \<in> set (showNat (length (showNat x) - 1))
         \<or> c = CHR ''.'' \<or> c = CHR ''e'' \<or> c = CHR ''+''"
proof (cases "length (showNat x) \<le> 21")
  case True
  with assms show ?thesis by (simp add: Number_toString_pos_plain)
next
  case False
  from assms stripped_digits(3) [OF False] show ?thesis
    unfolding Number_toString_pos_exp [OF False] by auto
qed

lemma Number_toString_pos_not:
  "CHR ''|'' \<notin> set (Number_toString_pos x)" "CHR ''-'' \<notin> set (Number_toString_pos x)"
  using Number_toString_pos_chars [of _ x] showNat_not(1,2) by fastforce+

lemma Number_toString_pos_nonempty: "Number_toString_pos x \<noteq> []"
  by (cases "length (showNat x) \<le> 21")
     (simp_all add: Number_toString_pos_plain Number_toString_pos_exp showNat_nonempty)

lemma Number_toString_pos_inj:
  assumes "Number_toString_pos x = Number_toString_pos y"
  shows "x = y"
proof -
  have mixed: False
    if p: "length (showNat a) \<le> 21" and e: "\<not> length (showNat b) \<le> 21"
      and eq: "Number_toString_pos a = Number_toString_pos b" for a b
  proof -
    have "CHR ''e'' \<in> set (Number_toString_pos b)"
      unfolding Number_toString_pos_exp [OF e] by simp
    with eq have "CHR ''e'' \<in> set (showNat a)" by (simp add: Number_toString_pos_plain [OF p])
    with showNat_not(3) show False by blast
  qed
  show ?thesis
  proof (cases "length (showNat x) \<le> 21")
    case px: True
    show ?thesis
    proof (cases "length (showNat y) \<le> 21")
      case True
      with px assms show ?thesis by (simp add: Number_toString_pos_plain showNat_inj)
    next
      case False
      with px assms mixed show ?thesis by blast
    qed
  next
    case ex: False
    show ?thesis
    proof (cases "length (showNat y) \<le> 21")
      case True
      with ex assms mixed [of y x] show ?thesis by simp
    next
      case ey: False
      define sx where "sx = rev (dropWhile (\<lambda>c. c = CHR ''0'') (rev (showNat x)))"
      define sy where "sy = rev (dropWhile (\<lambda>c. c = CHR ''0'') (rev (showNat y)))"
      have nx: "CHR ''e'' \<notin> set (mantissa sx)" "CHR ''.'' \<notin> set sx" "sx \<noteq> []"
        using stripped_digits [OF ex] showNat_not(3,4) [of x] unfolding sx_def by auto
      have ny: "CHR ''e'' \<notin> set (mantissa sy)" "CHR ''.'' \<notin> set sy" "sy \<noteq> []"
        using stripped_digits [OF ey] showNat_not(3,4) [of y] unfolding sy_def by auto
      have "mantissa sx @ CHR ''e'' # CHR ''+'' # showNat (length (showNat x) - 1)
          = mantissa sy @ CHR ''e'' # CHR ''+'' # showNat (length (showNat y) - 1)"
        using assms unfolding Number_toString_pos_exp [OF ex] Number_toString_pos_exp [OF ey]
          sx_def sy_def .
      from append_sep_eq [OF nx(1) ny(1) this]
      have m: "mantissa sx = mantissa sy"
        and l: "showNat (length (showNat x) - 1) = showNat (length (showNat y) - 1)"
        by simp_all
      from l have "length (showNat x) - 1 = length (showNat y) - 1" by (rule showNat_inj)
      with ex ey have len: "length (showNat x) = length (showNat y)" by simp
      have "sx = filter (\<lambda>c. c \<noteq> CHR ''.'') (mantissa sx)"
        using nx by (simp add: mantissa_filter)
      also have "\<dots> = sy" unfolding m using ny by (simp add: mantissa_filter)
      finally have s: "sx = sy" .
      have "showNat x = sx @ replicate (length (showNat x) - length sx) CHR ''0''"
        unfolding sx_def by (rule strip_recover [symmetric])
      also have "\<dots> = sy @ replicate (length (showNat y) - length sy) CHR ''0''"
        by (simp only: s len)
      also have "\<dots> = showNat y" unfolding sy_def by (rule strip_recover)
      finally show ?thesis by (rule showNat_inj)
    qed
  qed
qed

lemma Number_toString_not_bar: "CHR ''|'' \<notin> set (Number_toString l)"
  by (simp add: Number_toString_def Number_toString_pos_not)

lemma Number_toString_nonempty: "Number_toString l \<noteq> []"
  by (simp add: Number_toString_def Number_toString_pos_nonempty)

lemma Number_toString_inj:
  assumes "Number_toString k = Number_toString l"
  shows "k = l"
proof -
  have hd: "hd (Number_toString_pos n) \<noteq> CHR ''-''" for n
    using Number_toString_pos_not(2) [of n] Number_toString_pos_nonempty [of n]
    by (cases "Number_toString_pos n") auto
  show ?thesis
  proof (cases "k < 0")
    case kn: True
    show ?thesis
    proof (cases "l < 0")
      case True
      with kn assms have "Number_toString_pos (nat (- k)) = Number_toString_pos (nat (- l))"
        by (simp add: Number_toString_def)
      then have "nat (- k) = nat (- l)" by (rule Number_toString_pos_inj)
      with kn True show ?thesis by simp
    next
      case False
      with kn assms have "CHR ''-'' # Number_toString_pos (nat (- k)) = Number_toString_pos (nat l)"
        by (simp add: Number_toString_def)
      then have "hd (Number_toString_pos (nat l)) = CHR ''-''" by (metis list.sel(1))
      with hd show ?thesis by blast
    qed
  next
    case kp: False
    show ?thesis
    proof (cases "l < 0")
      case True
      with kp assms have "Number_toString_pos (nat k) = CHR ''-'' # Number_toString_pos (nat (- l))"
        by (simp add: Number_toString_def)
      then have "hd (Number_toString_pos (nat k)) = CHR ''-''" by (metis list.sel(1))
      with hd show ?thesis by blast
    next
      case False
      with kp assms have "Number_toString_pos (nat k) = Number_toString_pos (nat l)"
        by (simp add: Number_toString_def)
      then have "nat k = nat l" by (rule Number_toString_pos_inj)
      with kp False show ?thesis by simp
    qed
  qed
qed

text \<open>Renderings of \<open>Number::toString\<close>: plain digits up to 21 of them, the exponent form beyond.\<close>

lemma Number_toString_examples:
  "Number_toString 0 = ''0''" "Number_toString 120 = ''120''"
  "Number_toString 123456789012345678901 = ''123456789012345678901''"
  "Number_toString (10 ^ 21) = ''1e+21''" "Number_toString (- 15 * 10 ^ 20) = ''-1.5e+21''"
  by (simp_all add: Number_toString_def Number_toString_pos_def showNat.simps Let_def
      mantissa_def digit_def)

text \<open>Keys and the four fields.\<close>

lemma tuple_key: "dedup_tuple f = dedup_tuple g \<Longrightarrow> finding_key f = finding_key g"
  by (simp add: dedup_tuple_def finding_key_def)

lemma line_string_inj:
  assumes "(case k of None \<Rightarrow> [] | Some l \<Rightarrow> Number_toString l)
         = (case k' of None \<Rightarrow> [] | Some l \<Rightarrow> Number_toString l)"
  shows "k = k'"
proof (cases k)
  case None
  show ?thesis
  proof (cases k')
    case (Some l')
    with None assms have "Number_toString l' = []" by simp
    with Number_toString_nonempty show ?thesis by blast
  qed (simp add: None)
next
  case (Some l)
  show ?thesis
  proof (cases k')
    case None
    with Some assms have "Number_toString l = []" by simp
    with Number_toString_nonempty show ?thesis by blast
  next
    case (Some l')
    with \<open>k = Some l\<close> assms have "Number_toString l = Number_toString l'" by simp
    then have "l = l'" by (rule Number_toString_inj)
    with Some \<open>k = Some l\<close> show ?thesis by simp
  qed
qed

lemma line_string_not_bar:
  "CHR ''|'' \<notin> set (case k of None \<Rightarrow> [] | Some l \<Rightarrow> Number_toString l)"
  by (cases k) (simp_all add: Number_toString_not_bar)

lemma finding_key_inj:
  assumes "CHR ''|'' \<notin> set (ruleId f)" "CHR ''|'' \<notin> set (file' f)"
    and "CHR ''|'' \<notin> set (ruleId g)" "CHR ''|'' \<notin> set (file' g)"
    and "finding_key f = finding_key g"
  shows "dedup_tuple f = dedup_tuple g"
proof -
  let ?l = "\<lambda>h. case line h of None \<Rightarrow> [] | Some l \<Rightarrow> Number_toString l"
  have k: "finding_key h = ruleId h @ CHR ''|'' # (file' h @ CHR ''|'' # (?l h @ CHR ''|'' # message h))"
    for h by (simp add: finding_key_def)
  from assms(5) have e:
    "ruleId f @ CHR ''|'' # (file' f @ CHR ''|'' # (?l f @ CHR ''|'' # message f))
     = ruleId g @ CHR ''|'' # (file' g @ CHR ''|'' # (?l g @ CHR ''|'' # message g))"
    by (simp only: k)
  from append_sep_eq [OF assms(1,3) e]
  have r: "ruleId f = ruleId g"
    and e2: "file' f @ CHR ''|'' # (?l f @ CHR ''|'' # message f)
           = file' g @ CHR ''|'' # (?l g @ CHR ''|'' # message g)"
    by simp_all
  from append_sep_eq [OF assms(2,4) e2]
  have fl: "file' f = file' g"
    and e3: "?l f @ CHR ''|'' # message f = ?l g @ CHR ''|'' # message g"
    by simp_all
  from append_sep_eq [OF line_string_not_bar line_string_not_bar e3]
  have l: "?l f = ?l g" and m: "message f = message g" by simp_all
  from l have "line f = line g" by (rule line_string_inj)
  with r fl m show ?thesis by (simp add: dedup_tuple_def)
qed

text \<open>The loop keeps the first finding of every key.\<close>

lemma first_by_key_set_cong:
  "set ks = set ks' \<Longrightarrow> first_by_key ks fs = first_by_key ks' fs"
proof (induction fs arbitrary: ks ks')
  case Nil
  show ?case by simp
next
  case (Cons f fs)
  have "set (finding_key f # ks) = set (finding_key f # ks')"
    using Cons.prems by simp
  then have "first_by_key (finding_key f # ks) fs = first_by_key (finding_key f # ks') fs"
    by (rule Cons.IH)
  moreover have "first_by_key ks fs = first_by_key ks' fs"
    using Cons.prems by (rule Cons.IH)
  moreover have "finding_key f \<in> set ks \<longleftrightarrow> finding_key f \<in> set ks'"
    using Cons.prems by simp
  ultimately show ?case by simp
qed

lemma loop_first_by_key:
  "map snd (applyMetaAnalyzer_loop fs seen) = map snd seen @ first_by_key (map fst seen) fs"
proof (induction fs arbitrary: seen)
  case Nil
  then show ?case by simp
next
  case (Cons f fs)
  have has: "map_of seen (finding_key f) \<noteq> None \<longleftrightarrow> finding_key f \<in> set (map fst seen)"
    by (simp add: map_of_eq_None_iff)
  show ?case
  proof (cases "finding_key f \<in> set (map fst seen)")
    case True
    then show ?thesis using Cons.IH [of seen] has by (simp add: Let_def)
  next
    case False
    have "first_by_key (map fst seen @ [finding_key f]) fs
        = first_by_key (finding_key f # map fst seen) fs"
      by (rule first_by_key_set_cong) auto
    with False show ?thesis using Cons.IH [of "seen @ [(finding_key f, f)]"] has
      by (simp add: Let_def)
  qed
qed

lemma applyMetaAnalyzer_first: "applyMetaAnalyzer fs = first_by_key [] fs"
  by (simp add: applyMetaAnalyzer_def loop_first_by_key)

lemma first_by_key_subseq: "subseq (first_by_key ks fs) fs"
  by (induction fs arbitrary: ks) auto

lemma first_by_key_set: "set (first_by_key ks fs) \<subseteq> set fs"
  by (induction fs arbitrary: ks) auto

lemma first_by_key_keys:
  "set (map finding_key (first_by_key ks fs)) = set (map finding_key fs) - set ks"
  by (induction fs arbitrary: ks) auto

lemma first_by_key_distinct: "distinct (map finding_key (first_by_key ks fs))"
  by (induction fs arbitrary: ks) (auto simp: first_by_key_keys [simplified])

lemma first_by_key_fixed:
  "distinct (map finding_key fs) \<Longrightarrow> set (map finding_key fs) \<inter> set ks = {} \<Longrightarrow>
   first_by_key ks fs = fs"
  by (induction fs arbitrary: ks) auto

lemma first_by_key_filter:
  "filter (\<lambda>g. finding_key g = k) (first_by_key ks fs)
     = (if k \<in> set ks then [] else take 1 (filter (\<lambda>g. finding_key g = k) fs))"
proof (induction fs arbitrary: ks)
  case Nil
  show ?case by simp
next
  case (Cons f fs)
  show ?case
  proof (cases "finding_key f \<in> set ks")
    case True
    then show ?thesis using Cons.IH [of ks] by auto
  next
    case False
    then show ?thesis using Cons.IH [of "finding_key f # ks"] by auto
  qed
qed

lemma filter_tuple_le_key:
  "length (filter (\<lambda>g. dedup_tuple g = dedup_tuple f) xs)
     \<le> length (filter (\<lambda>g. finding_key g = finding_key f) xs)"
  by (induction xs) (auto dest: tuple_key)

text \<open>
  Claim C4. For every finding list \<open>F\<close>: \<open>applyMetaAnalyzer F\<close> is a sublist of \<open>F\<close>
  (its elements, in their order); applying it twice is the same as applying it once; and
  for every finding of \<open>F\<close> the output holds at most one finding with its
  \<open>(ruleId, file, line, message)\<close>. When no \<open>ruleId\<close> and no \<open>file\<close> in \<open>F\<close> holds the
  character \<open>|\<close>, the output holds exactly one finding with these four fields, the first
  of \<open>F\<close> that has them: all findings of \<open>F\<close> sharing the four fields collapse to that
  one.
\<close>

theorem applyMetaAnalyzer_dedup:
  "subseq (applyMetaAnalyzer F) F
   \<and> applyMetaAnalyzer (applyMetaAnalyzer F) = applyMetaAnalyzer F
   \<and> (\<forall>f \<in> set F.
         length (filter (\<lambda>g. dedup_tuple g = dedup_tuple f) (applyMetaAnalyzer F)) \<le> 1)
   \<and> ((\<forall>f \<in> set F. CHR ''|'' \<notin> set (ruleId f) \<and> CHR ''|'' \<notin> set (file' f)) \<longrightarrow>
        (\<forall>f \<in> set F.
           filter (\<lambda>g. dedup_tuple g = dedup_tuple f) (applyMetaAnalyzer F)
             = [hd (filter (\<lambda>g. dedup_tuple g = dedup_tuple f) F)]))"
proof (intro conjI ballI impI)
  show "subseq (applyMetaAnalyzer F) F"
    by (simp add: applyMetaAnalyzer_first first_by_key_subseq)
  show "applyMetaAnalyzer (applyMetaAnalyzer F) = applyMetaAnalyzer F"
    unfolding applyMetaAnalyzer_first
    by (rule first_by_key_fixed) (simp_all add: first_by_key_distinct)
next
  fix f assume "f \<in> set F"
  have "length (filter (\<lambda>g. finding_key g = finding_key f) (applyMetaAnalyzer F)) \<le> 1"
    using distinct_key_count [of finding_key "applyMetaAnalyzer F" "finding_key f"]
    by (simp add: applyMetaAnalyzer_first first_by_key_distinct)
  with filter_tuple_le_key [of f "applyMetaAnalyzer F"]
  show "length (filter (\<lambda>g. dedup_tuple g = dedup_tuple f) (applyMetaAnalyzer F)) \<le> 1"
    by simp
next
  fix f
  assume nobar: "\<forall>f \<in> set F. CHR ''|'' \<notin> set (ruleId f) \<and> CHR ''|'' \<notin> set (file' f)"
    and f: "f \<in> set F"
  have same: "dedup_tuple g = dedup_tuple f \<longleftrightarrow> finding_key g = finding_key f"
    if "g \<in> set F" for g
    using that f nobar tuple_key [of g f] finding_key_inj [of g f] by blast
  have sub: "set (applyMetaAnalyzer F) \<subseteq> set F"
    by (simp add: applyMetaAnalyzer_first first_by_key_set)
  have in_F: "filter (\<lambda>g. dedup_tuple g = dedup_tuple f) F
            = filter (\<lambda>g. finding_key g = finding_key f) F"
    using same by (intro filter_cong) auto
  have "filter (\<lambda>g. dedup_tuple g = dedup_tuple f) (applyMetaAnalyzer F)
      = filter (\<lambda>g. finding_key g = finding_key f) (applyMetaAnalyzer F)"
    using same sub by (intro filter_cong) auto
  also have "\<dots> = take 1 (filter (\<lambda>g. finding_key g = finding_key f) F)"
    by (simp add: applyMetaAnalyzer_first first_by_key_filter)
  also have "\<dots> = take 1 (filter (\<lambda>g. dedup_tuple g = dedup_tuple f) F)"
    by (simp only: in_F)
  also have "\<dots> = [hd (filter (\<lambda>g. dedup_tuple g = dedup_tuple f) F)]"
  proof -
    have "f \<in> set (filter (\<lambda>g. dedup_tuple g = dedup_tuple f) F)" using f by simp
    then show ?thesis by (cases "filter (\<lambda>g. dedup_tuple g = dedup_tuple f) F") auto
  qed
  finally show "filter (\<lambda>g. dedup_tuple g = dedup_tuple f) (applyMetaAnalyzer F)
             = [hd (filter (\<lambda>g. dedup_tuple g = dedup_tuple f) F)]" .
qed

text \<open>
  Three findings, the first and the third sharing the four fields and differing in
  severity: the third is dropped, the second (another line) is kept, and the one finding
  left with the fields of the third is the first.
\<close>

theorem applyMetaAnalyzer_dedup_witness:
  "list_all (\<lambda>f. CHR ''|'' \<notin> set (ruleId f) \<and> CHR ''|'' \<notin> set (file' f))
     [sample_finding, sample_finding\<lparr>line := Some 120\<rparr>, sample_finding\<lparr>severity := LOW\<rparr>]
   \<and> applyMetaAnalyzer [sample_finding, sample_finding\<lparr>line := Some 120\<rparr>,
                         sample_finding\<lparr>severity := LOW\<rparr>]
     = [sample_finding, sample_finding\<lparr>line := Some 120\<rparr>]
   \<and> sample_finding\<lparr>severity := LOW\<rparr> \<noteq> sample_finding
   \<and> filter (\<lambda>g. dedup_tuple g = dedup_tuple (sample_finding\<lparr>severity := LOW\<rparr>))
        (applyMetaAnalyzer [sample_finding, sample_finding\<lparr>line := Some 120\<rparr>,
                            sample_finding\<lparr>severity := LOW\<rparr>])
     = [sample_finding]"
proof -
  let ?F = "[sample_finding, sample_finding\<lparr>line := Some 120\<rparr>, sample_finding\<lparr>severity := LOW\<rparr>]"
  let ?f = "sample_finding\<lparr>severity := LOW\<rparr>"
  have run: "applyMetaAnalyzer ?F = [sample_finding, sample_finding\<lparr>line := Some 120\<rparr>]"
    by code_simp
  have nobar: "\<forall>f \<in> set ?F. CHR ''|'' \<notin> set (ruleId f) \<and> CHR ''|'' \<notin> set (file' f)"
    by (simp add: sample_finding_def)
  have mem: "?f \<in> set ?F" by simp
  have ne: "?f \<noteq> sample_finding" by (simp add: sample_finding_def)
  have first: "hd (filter (\<lambda>g. dedup_tuple g = dedup_tuple ?f) ?F) = sample_finding"
    by (simp add: dedup_tuple_def)
  from applyMetaAnalyzer_dedup [of ?F] nobar mem
  have "filter (\<lambda>g. dedup_tuple g = dedup_tuple ?f) (applyMetaAnalyzer ?F)
          = [hd (filter (\<lambda>g. dedup_tuple g = dedup_tuple ?f) ?F)]"
    by blast
  then have one: "filter (\<lambda>g. dedup_tuple g = dedup_tuple ?f) (applyMetaAnalyzer ?F)
          = [sample_finding]"
    by (simp only: first)
  from nobar have "list_all (\<lambda>f. CHR ''|'' \<notin> set (ruleId f) \<and> CHR ''|'' \<notin> set (file' f)) ?F"
    by (simp only: list_all_iff)
  with run ne one show ?thesis by blast
qed

text \<open>
  Claim C4 at a failing input. The rule \<open>R1|a.md\<close> in the file \<open>b.md\<close> and the rule \<open>R1\<close>
  in the file \<open>a.md|b.md\<close> give the same key \<open>R1|a.md|b.md|3|m\<close>. A finding of the first
  kind followed by two equal findings of the second kind: the two findings that share
  their four fields are both dropped, and the output holds no finding with these fields,
  where the claim has one.
\<close>

theorem applyMetaAnalyzer_key_collision_counterexample:
  "applyMetaAnalyzer
     [sample_finding\<lparr>ruleId := ''R1|a.md'', file' := ''b.md''\<rparr>,
      sample_finding\<lparr>file' := ''a.md|b.md''\<rparr>, sample_finding\<lparr>file' := ''a.md|b.md''\<rparr>]
     = [sample_finding\<lparr>ruleId := ''R1|a.md'', file' := ''b.md''\<rparr>]
   \<and> dedup_tuple (sample_finding\<lparr>ruleId := ''R1|a.md'', file' := ''b.md''\<rparr>)
       \<noteq> dedup_tuple (sample_finding\<lparr>file' := ''a.md|b.md''\<rparr>)
   \<and> filter (\<lambda>g. dedup_tuple g = dedup_tuple (sample_finding\<lparr>file' := ''a.md|b.md''\<rparr>))
        (applyMetaAnalyzer
           [sample_finding\<lparr>ruleId := ''R1|a.md'', file' := ''b.md''\<rparr>,
            sample_finding\<lparr>file' := ''a.md|b.md''\<rparr>, sample_finding\<lparr>file' := ''a.md|b.md''\<rparr>])
     = []"
  by code_simp

subsection \<open>Scan cache\<close>

lemma evict_scan_some:
  "evict_scan m (Some p, Some t) = (Some q, Some u) \<Longrightarrow>
     u \<le> t \<and> (\<forall>(k, e) \<in> set m. u \<le> timestamp e)
     \<and> ((q, u) = (p, t) \<or> (\<exists>e. (q, e) \<in> set m \<and> timestamp e = u))"
proof (induction m arbitrary: p t)
  case Nil
  then show ?case by simp
next
  case (Cons a m)
  obtain k e where a: "a = (k, e)" by (cases a)
  show ?case
  proof (cases "timestamp e < t")
    case True
    with Cons.prems a have "evict_scan m (Some k, Some (timestamp e)) = (Some q, Some u)" by simp
    from Cons.IH [OF this] True a show ?thesis by auto
  next
    case False
    with Cons.prems a have "evict_scan m (Some p, Some t) = (Some q, Some u)" by simp
    from Cons.IH [OF this] False a show ?thesis by auto
  qed
qed

lemma evict_scan_shape: "\<exists>q u. evict_scan m (Some p, Some t) = (Some q, Some u)"
  by (induction m arbitrary: p t) (auto split: prod.splits)

lemma oldestPath_of_nonempty:
  assumes "m \<noteq> []"
  shows "\<exists>q e. oldestPath_of m = Some q \<and> (q, e) \<in> set m
           \<and> (\<forall>(k, e') \<in> set m. timestamp e \<le> timestamp e')"
proof -
  obtain k e m' where m: "m = (k, e) # m'" using assms by (cases m) auto
  obtain q u where r: "evict_scan m' (Some k, Some (timestamp e)) = (Some q, Some u)"
    using evict_scan_shape by blast
  from evict_scan_some [OF r]
  have u: "u \<le> timestamp e" "\<forall>(k, e') \<in> set m'. u \<le> timestamp e'"
    and w: "(q, u) = (k, timestamp e) \<or> (\<exists>e'. (q, e') \<in> set m' \<and> timestamp e' = u)"
    by auto
  have op: "oldestPath_of m = Some q" using r m by (simp add: oldestPath_of_def)
  from w obtain e0 where e0: "(q, e0) \<in> set m" "timestamp e0 = u"
    using m by auto
  have "\<forall>(k, e') \<in> set m. timestamp e0 \<le> timestamp e'" using u e0 m by auto
  with op e0 show ?thesis by blast
qed

lemma map_delete_length_key:
  "k \<in> fst ` set m \<Longrightarrow> Suc (length (map_delete m k)) = length m"
proof (induction m)
  case Nil
  then show ?case by simp
next
  case (Cons a m)
  obtain k' v where a: "a = (k', v)" by (cases a)
  show ?case
  proof (cases "k' = k")
    case True
    with a show ?thesis by simp
  next
    case False
    with Cons.prems a have "k \<in> fst ` set m" by auto
    with Cons.IH False a show ?thesis by simp
  qed
qed

lemma map_delete_absent: "k \<notin> fst ` set m \<Longrightarrow> map_delete m k = m"
  by (induction m) auto

lemma map_delete_length_le: "length (map_delete m k) \<le> length m"
  by (induction m) (auto split: if_splits)

lemma map_delete_set: "set (map_delete m k) \<subseteq> set m"
  by (induction m) (auto split: if_splits)

lemma map_delete_not_key: "distinct (map fst m) \<Longrightarrow> k \<notin> fst ` set (map_delete m k)"
proof (induction m)
  case Nil
  then show ?case by simp
next
  case (Cons a m)
  then show ?case using map_delete_set [of m k] by (cases a) (auto simp: image_iff)
qed

lemma map_set_length: "length (map_set m k v) \<le> Suc (length m)"
  by (induction m) auto

lemma evictOldestEntry_cache:
  assumes "cache c \<noteq> []" "'''' \<notin> fst ` set (cache c)"
  shows "\<exists>p. oldestPath_of (cache c) = Some p \<and> p \<in> fst ` set (cache c)
             \<and> cache (evictOldestEntry c) = map_delete (cache c) p"
proof -
  obtain q e where q: "oldestPath_of (cache c) = Some q" "(q, e) \<in> set (cache c)"
    using oldestPath_of_nonempty [OF assms(1)] by blast
  then have k: "q \<in> fst ` set (cache c)" by (force simp: image_iff)
  have "q \<noteq> ''''"
  proof
    assume "q = ''''"
    with k assms(2) show False by simp
  qed
  then have "cache (evictOldestEntry c) = map_delete (cache c) q"
    using q(1) assms(1) by (simp add: evictOldestEntry_def oldestPath_of_def)
  with q(1) k show ?thesis by blast
qed

lemma evictOldestEntry_set: "set (cache (evictOldestEntry c)) \<subseteq> set (cache c)"
  using map_delete_set by (auto simp: evictOldestEntry_def split: option.splits)

lemma evictOldestEntry_length: "length (cache c) \<le> Suc (length (cache (evictOldestEntry c)))"
proof -
  have "\<And>p. length (cache c) \<le> Suc (length (map_delete (cache c) p))"
  proof -
    fix p
    show "length (cache c) \<le> Suc (length (map_delete (cache c) p))"
    proof (cases "p \<in> fst ` set (cache c)")
      case True
      then show ?thesis using map_delete_length_key [of p "cache c"] by simp
    next
      case False
      then have "map_delete (cache c) p = cache c"
        by (rule map_delete_absent)
      then show ?thesis by simp
    qed
  qed
  then show ?thesis by (auto simp: evictOldestEntry_def split: option.splits)
qed

lemma evictOldestEntry_length_le: "length (cache (evictOldestEntry c)) \<le> length (cache c)"
  by (auto simp: evictOldestEntry_def map_delete_length_le split: option.splits)

lemma evictBeforeInsert_length_le: "length (cache (evictBeforeInsert c)) \<le> length (cache c)"
  using evictOldestEntry_length_le [of c] evictOldestEntry_length_le [of "evictOldestEntry c"]
  by (auto simp: evictBeforeInsert_def Let_def)

lemma evictOldestEntry_fields:
  "maxEntries (evictOldestEntry c) = maxEntries c"
  "maxSizeBytes (evictOldestEntry c) = maxSizeBytes c"
  by (auto simp: evictOldestEntry_def split: option.splits)

lemma evictBeforeInsert_set: "set (cache (evictBeforeInsert c)) \<subseteq> set (cache c)"
  using evictOldestEntry_set [of c] evictOldestEntry_set [of "evictOldestEntry c"]
  by (auto simp: evictBeforeInsert_def Let_def)

lemma evictBeforeInsert_length:
  "length (cache c) \<le> length (cache (evictBeforeInsert c)) + 2"
  using evictOldestEntry_length [of c] evictOldestEntry_length [of "evictOldestEntry c"]
  by (auto simp: evictBeforeInsert_def Let_def)

lemma doSetCachedFindings_length:
  "length (cache (doSetCachedFindings c filePath fs fileHash now))
     \<le> Suc (length (cache (evictBeforeInsert c)))"
  by (simp add: doSetCachedFindings_def Let_def map_set_length)

lemma evictBeforeInsert_triggered:
  assumes "cache c \<noteq> []" "'''' \<notin> fst ` set (cache c)" "distinct (map fst (cache c))"
    and "maxEntries c \<le> int (length (cache c)) \<or> maxSizeBytes c \<le> real (estimateCacheSize c)"
  shows "\<exists>p. oldestPath_of (cache c) = Some p \<and> p \<notin> fst ` set (cache (evictBeforeInsert c))
             \<and> length (cache (evictBeforeInsert c)) < length (cache c)"
proof -
  obtain p where p: "oldestPath_of (cache c) = Some p" "p \<in> fst ` set (cache c)"
      "cache (evictOldestEntry c) = map_delete (cache c) p"
    using evictOldestEntry_cache [OF assms(1,2)] by blast
  have gone: "p \<notin> fst ` set (cache (evictOldestEntry c))"
    using p(3) map_delete_not_key [OF assms(3)] by simp
  have less: "length (cache (evictOldestEntry c)) < length (cache c)"
    using p(2,3) map_delete_length_key [of p "cache c"] by simp
  show ?thesis
  proof (cases "maxEntries c \<le> int (length (cache c))")
    case True
    then have "set (cache (evictBeforeInsert c)) \<subseteq> set (cache (evictOldestEntry c))"
      and "length (cache (evictBeforeInsert c)) \<le> length (cache (evictOldestEntry c))"
      using evictOldestEntry_set [of "evictOldestEntry c"]
        evictOldestEntry_length_le [of "evictOldestEntry c"]
      by (auto simp: evictBeforeInsert_def Let_def)
    with gone less p(1) show ?thesis by (auto simp: image_iff)
  next
    case False
    with assms(4) have "maxSizeBytes c \<le> real (estimateCacheSize c)" by simp
    with False have "evictBeforeInsert c = evictOldestEntry c"
      by (simp add: evictBeforeInsert_def Let_def)
    with gone less p(1) show ?thesis by simp
  qed
qed

text \<open>The scan picks the first entry with the least timestamp.\<close>

lemma evict_scan_keep:
  "\<forall>j < length m. t \<le> timestamp (snd (m ! j)) \<Longrightarrow>
   evict_scan m (Some p, Some t) = (Some p, Some t)"
proof (induction m)
  case Nil
  show ?case by simp
next
  case (Cons a m)
  obtain k v where a: "a = (k, v)" by (cases a)
  from Cons.prems have "t \<le> timestamp (snd ((a # m) ! 0))" by blast
  then have h: "\<not> timestamp v < t" using a by simp
  have "\<forall>j < length m. t \<le> timestamp (snd (m ! j))"
  proof (intro allI impI)
    fix j assume "j < length m"
    then have "Suc j < length (a # m)" by simp
    with Cons.prems have "t \<le> timestamp (snd ((a # m) ! Suc j))" by blast
    then show "t \<le> timestamp (snd (m ! j))" by simp
  qed
  with Cons.IH h a show ?case by simp
qed

lemma evict_scan_first:
  assumes "i < length m" "m ! i = (p, e)"
    and "\<forall>j < length m. timestamp e \<le> timestamp (snd (m ! j))"
    and "\<forall>j < i. timestamp e < timestamp (snd (m ! j))"
    and "case acc_t of None \<Rightarrow> True | Some t \<Rightarrow> timestamp e < t"
  shows "evict_scan m (acc_p, acc_t) = (Some p, Some (timestamp e))"
  using assms
proof (induction m arbitrary: i acc_p acc_t)
  case Nil
  then show ?case by simp
next
  case (Cons a m)
  obtain k v where a: "a = (k, v)" by (cases a)
  have rest: "\<forall>j < length m. timestamp e \<le> timestamp (snd (m ! j))"
  proof (intro allI impI)
    fix j assume "j < length m"
    then have "Suc j < length (a # m)" by simp
    with Cons.prems(3) have "timestamp e \<le> timestamp (snd ((a # m) ! Suc j))" by blast
    then show "timestamp e \<le> timestamp (snd (m ! j))" by simp
  qed
  show ?case
  proof (cases i)
    case 0
    with Cons.prems(2) a have kv: "k = p" "v = e" by simp_all
    have "evict_scan (a # m) (acc_p, acc_t) = evict_scan m (Some p, Some (timestamp e))"
      using Cons.prems(5) a kv by (cases acc_t) simp_all
    also have "\<dots> = (Some p, Some (timestamp e))" using rest by (rule evict_scan_keep)
    finally show ?thesis .
  next
    case (Suc i')
    have i': "i' < length m" "m ! i' = (p, e)" using Cons.prems(1,2) Suc by simp_all
    have before: "\<forall>j < i'. timestamp e < timestamp (snd (m ! j))"
    proof (intro allI impI)
      fix j assume "j < i'"
      then have "Suc j < i" using Suc by simp
      with Cons.prems(4) have "timestamp e < timestamp (snd ((a # m) ! Suc j))" by blast
      then show "timestamp e < timestamp (snd (m ! j))" by simp
    qed
    have "0 < i" using Suc by simp
    with Cons.prems(4) have "timestamp e < timestamp (snd ((a # m) ! 0))" by blast
    then have lt: "timestamp e < timestamp v" using a by simp
    show ?thesis
    proof (cases "case acc_t of None \<Rightarrow> True | Some t \<Rightarrow> timestamp v < t")
      case True
      then have "evict_scan (a # m) (acc_p, acc_t) = evict_scan m (Some k, Some (timestamp v))"
        using a by simp
      also have "\<dots> = (Some p, Some (timestamp e))"
        using i' rest before lt by (intro Cons.IH) simp_all
      finally show ?thesis .
    next
      case False
      then have "evict_scan (a # m) (acc_p, acc_t) = evict_scan m (acc_p, acc_t)"
        using a by simp
      also have "\<dots> = (Some p, Some (timestamp e))"
        using i' rest before Cons.prems(5) by (intro Cons.IH) simp_all
      finally show ?thesis .
    qed
  qed
qed

lemma map_delete_index:
  "distinct (map fst m) \<Longrightarrow> i < length m \<Longrightarrow> fst (m ! i) = k \<Longrightarrow>
   map_delete m k = take i m @ drop (Suc i) m"
proof (induction m arbitrary: i)
  case Nil
  then show ?case by simp
next
  case (Cons a m)
  obtain k' v where a: "a = (k', v)" by (cases a)
  show ?case
  proof (cases i)
    case 0
    with Cons.prems a show ?thesis by simp
  next
    case (Suc i')
    with Cons.prems have i': "i' < length m" "fst (m ! i') = k" by simp_all
    then have "k \<in> fst ` set m" by (metis image_eqI nth_mem)
    with Cons.prems(1) a have "k' \<noteq> k" by auto
    with Cons.IH [of i'] Cons.prems(1) i' a Suc show ?thesis by simp
  qed
qed

lemma map_set_map_fst:
  "map fst (map_set m k v) = (if k \<in> fst ` set m then map fst m else map fst m @ [k])"
  by (induction m) (force simp: image_iff)+

lemma map_set_keys: "fst ` set (map_set m k v) = insert k (fst ` set m)"
proof -
  have "set (map fst (map_set m k v)) = insert k (fst ` set m)"
    unfolding map_set_map_fst by auto
  then show ?thesis by simp
qed

lemma map_set_lookup: "map_of (map_set m k v) k = Some v"
  by (induction m) auto

lemma evictOldestEntry_first:
  assumes "distinct (map fst (cache c))"
    and "i < length (cache c)" "cache c ! i = (p, e)"
    and "\<forall>j < length (cache c). timestamp e \<le> timestamp (snd (cache c ! j))"
    and "\<forall>j < i. timestamp e < timestamp (snd (cache c ! j))"
    and "p \<noteq> []"
  shows "evictOldestEntry c
           = c\<lparr>cache := take i (cache c) @ drop (Suc i) (cache c), dirty := True\<rparr>"
proof -
  have "evict_scan (cache c) (None, None) = (Some p, Some (timestamp e))"
    using assms(2-5) by (intro evict_scan_first) simp_all
  moreover have "map_delete (cache c) p = take i (cache c) @ drop (Suc i) (cache c)"
    using assms(1-3) by (intro map_delete_index) simp_all
  moreover have "cache c \<noteq> []" using assms(2) by auto
  ultimately show ?thesis using assms(6) by (simp add: evictOldestEntry_def)
qed

lemma evictOldestEntry_same_keys:
  "fst ` set (cache (evictOldestEntry c)) \<subseteq> fst ` set (cache c)"
  using evictOldestEntry_set [of c] by blast

lemma evictOldestEntry_ruleVersion: "cacheRuleVersion (evictOldestEntry c) = cacheRuleVersion c"
  by (auto simp: evictOldestEntry_def split: option.splits)

lemma evictBeforeInsert_ruleVersion: "cacheRuleVersion (evictBeforeInsert c) = cacheRuleVersion c"
  by (simp add: evictBeforeInsert_def Let_def evictOldestEntry_ruleVersion)

lemma evictBeforeInsert_cases:
  assumes "maxEntries c \<le> int (length (cache c)) \<or> maxSizeBytes c \<le> real (estimateCacheSize c)"
  shows "evictBeforeInsert c = evictOldestEntry c
       \<or> evictBeforeInsert c = evictOldestEntry (evictOldestEntry c)"
  using assms by (auto simp: evictBeforeInsert_def Let_def)

lemma evictBeforeInsert_idle:
  assumes "\<not> (maxEntries c \<le> int (length (cache c)) \<or> maxSizeBytes c \<le> real (estimateCacheSize c))"
  shows "evictBeforeInsert c = c"
  using assms by (auto simp: evictBeforeInsert_def Let_def)

text \<open>
  Claim C5, the part that holds. The \<open>Map\<close> holds one entry per path. Let the entry at
  position \<open>i\<close>, under the path \<open>p\<close>, be the first entry with the least timestamp: no
  entry is older, and every entry before it is younger. If \<open>p\<close> is not the empty string,
  \<open>evictOldestEntry\<close> removes exactly this entry; and on a cache write with the entry count
  at least \<open>maxEntries\<close> or the estimated size at least \<open>maxSizeBytes\<close>, this entry is
  evicted before the new entry is inserted, and is gone after the write unless it is
  written anew. The count check and the size check each run once, so
  \<open>evictOldestEntry\<close> runs once or twice then, and not at all when neither limit is
  reached; nothing but evictions happens before the insertion, and at most two entries
  go. After the write the cache holds the new entry under \<open>filePath\<close> and is dirty. If the
  cache held at most \<open>maxEntries\<close> entries before the write, \<open>maxEntries\<close> is positive
  and no entry is stored under the empty path, the cache holds at most \<open>maxEntries\<close>
  entries after the write.
\<close>

theorem doSetCachedFindings_eviction:
  assumes "distinct (map fst (cache c))"
  shows "(\<forall>i p e.
            i < length (cache c) \<and> cache c ! i = (p, e)
            \<and> (\<forall>j < length (cache c). timestamp e \<le> timestamp (snd (cache c ! j)))
            \<and> (\<forall>j < i. timestamp e < timestamp (snd (cache c ! j)))
            \<and> p \<noteq> []
          \<longrightarrow> evictOldestEntry c
                = c\<lparr>cache := take i (cache c) @ drop (Suc i) (cache c), dirty := True\<rparr>
              \<and> (maxEntries c \<le> int (length (cache c))
                   \<or> maxSizeBytes c \<le> real (estimateCacheSize c)
                 \<longrightarrow> p \<notin> fst ` set (cache (evictBeforeInsert c))
                     \<and> (filePath \<noteq> p \<longrightarrow>
                          p \<notin> fst ` set (cache (doSetCachedFindings c filePath fs fileHash now)))))
       \<and> (maxEntries c \<le> int (length (cache c)) \<or> maxSizeBytes c \<le> real (estimateCacheSize c)
          \<longrightarrow> evictBeforeInsert c = evictOldestEntry c
              \<or> evictBeforeInsert c = evictOldestEntry (evictOldestEntry c))
       \<and> (\<not> (maxEntries c \<le> int (length (cache c))
               \<or> maxSizeBytes c \<le> real (estimateCacheSize c))
          \<longrightarrow> evictBeforeInsert c = c)
       \<and> set (cache (evictBeforeInsert c)) \<subseteq> set (cache c)
       \<and> length (cache c) \<le> length (cache (evictBeforeInsert c)) + 2
       \<and> map_of (cache (doSetCachedFindings c filePath fs fileHash now)) filePath
            = Some \<lparr>hash = fileHash, findings = fs, timestamp = now,
                    ruleVersion = cacheRuleVersion c\<rparr>
       \<and> dirty (doSetCachedFindings c filePath fs fileHash now)
       \<and> (0 < maxEntries c \<and> int (length (cache c)) \<le> maxEntries c
            \<and> [] \<notin> fst ` set (cache c)
          \<longrightarrow> int (length (cache (doSetCachedFindings c filePath fs fileHash now)))
                \<le> maxEntries c)"
proof -
  let ?trigger = "maxEntries c \<le> int (length (cache c))
                    \<or> maxSizeBytes c \<le> real (estimateCacheSize c)"
  have first: "evictOldestEntry c
                = c\<lparr>cache := take i (cache c) @ drop (Suc i) (cache c), dirty := True\<rparr>
              \<and> (?trigger
                 \<longrightarrow> p \<notin> fst ` set (cache (evictBeforeInsert c))
                     \<and> (filePath \<noteq> p \<longrightarrow>
                          p \<notin> fst ` set (cache (doSetCachedFindings c filePath fs fileHash now))))"
    if h: "i < length (cache c) \<and> cache c ! i = (p, e)
            \<and> (\<forall>j < length (cache c). timestamp e \<le> timestamp (snd (cache c ! j)))
            \<and> (\<forall>j < i. timestamp e < timestamp (snd (cache c ! j)))
            \<and> p \<noteq> []" for i p e
  proof
    from h have i: "i < length (cache c)" and at: "cache c ! i = (p, e)"
      and least: "\<forall>j < length (cache c). timestamp e \<le> timestamp (snd (cache c ! j))"
      and before: "\<forall>j < i. timestamp e < timestamp (snd (cache c ! j))"
      and p: "p \<noteq> []"
      by simp_all
    show ev: "evictOldestEntry c
                = c\<lparr>cache := take i (cache c) @ drop (Suc i) (cache c), dirty := True\<rparr>"
      using assms i at least before p by (rule evictOldestEntry_first)
    have "map_delete (cache c) p = take i (cache c) @ drop (Suc i) (cache c)"
      using assms i at by (intro map_delete_index) simp_all
    with ev have "cache (evictOldestEntry c) = map_delete (cache c) p" by simp
    with map_delete_not_key [OF assms, of p]
    have gone: "p \<notin> fst ` set (cache (evictOldestEntry c))" by simp
    show "?trigger
          \<longrightarrow> p \<notin> fst ` set (cache (evictBeforeInsert c))
              \<and> (filePath \<noteq> p \<longrightarrow>
                   p \<notin> fst ` set (cache (doSetCachedFindings c filePath fs fileHash now)))"
    proof
      assume ?trigger
      then have "evictBeforeInsert c = evictOldestEntry c
                 \<or> evictBeforeInsert c = evictOldestEntry (evictOldestEntry c)"
        by (rule evictBeforeInsert_cases)
      then have "fst ` set (cache (evictBeforeInsert c))
                   \<subseteq> fst ` set (cache (evictOldestEntry c))"
        using evictOldestEntry_same_keys [of "evictOldestEntry c"] by (elim disjE) simp_all
      with gone have g: "p \<notin> fst ` set (cache (evictBeforeInsert c))" by blast
      have "fst ` set (cache (doSetCachedFindings c filePath fs fileHash now))
              = insert filePath (fst ` set (cache (evictBeforeInsert c)))"
        by (simp add: doSetCachedFindings_def Let_def map_set_keys)
      with g show "p \<notin> fst ` set (cache (evictBeforeInsert c))
              \<and> (filePath \<noteq> p \<longrightarrow>
                   p \<notin> fst ` set (cache (doSetCachedFindings c filePath fs fileHash now)))"
        by simp
    qed
  qed
  have cases: "?trigger \<longrightarrow> evictBeforeInsert c = evictOldestEntry c
              \<or> evictBeforeInsert c = evictOldestEntry (evictOldestEntry c)"
    using evictBeforeInsert_cases [of c] by blast
  have idle: "\<not> ?trigger \<longrightarrow> evictBeforeInsert c = c"
    using evictBeforeInsert_idle [of c] by blast
  have sub: "set (cache (evictBeforeInsert c)) \<subseteq> set (cache c)"
    by (rule evictBeforeInsert_set)
  have two: "length (cache c) \<le> length (cache (evictBeforeInsert c)) + 2"
    by (rule evictBeforeInsert_length)
  have new: "map_of (cache (doSetCachedFindings c filePath fs fileHash now)) filePath
            = Some \<lparr>hash = fileHash, findings = fs, timestamp = now,
                    ruleVersion = cacheRuleVersion c\<rparr>"
    by (simp add: doSetCachedFindings_def Let_def map_set_lookup evictBeforeInsert_ruleVersion)
  have d: "dirty (doSetCachedFindings c filePath fs fileHash now)"
    by (simp add: doSetCachedFindings_def Let_def)
  have count: "0 < maxEntries c \<and> int (length (cache c)) \<le> maxEntries c
            \<and> [] \<notin> fst ` set (cache c)
          \<longrightarrow> int (length (cache (doSetCachedFindings c filePath fs fileHash now)))
                \<le> maxEntries c"
  proof
    assume b: "0 < maxEntries c \<and> int (length (cache c)) \<le> maxEntries c
            \<and> [] \<notin> fst ` set (cache c)"
    show "int (length (cache (doSetCachedFindings c filePath fs fileHash now))) \<le> maxEntries c"
    proof (cases "maxEntries c \<le> int (length (cache c))")
      case True
      with b have "cache c \<noteq> []" by auto
      moreover from b have "[] \<notin> fst ` set (cache c)" by simp
      ultimately have "length (cache (evictBeforeInsert c)) < length (cache c)"
        using evictBeforeInsert_triggered [OF _ _ assms] True by blast
      then show ?thesis
        using doSetCachedFindings_length [of c filePath fs fileHash now] b by linarith
    next
      case False
      have "length (cache (evictBeforeInsert c)) \<le> length (cache c)"
        by (rule evictBeforeInsert_length_le)
      then show ?thesis
        using doSetCachedFindings_length [of c filePath fs fileHash now] False by linarith
    qed
  qed
  from first cases idle sub two new d count show ?thesis by blast
qed

text \<open>
  A full cache of three entries, the second and the third equally old: writing a fourth
  path evicts the second, the first of the two oldest, and leaves three entries.
\<close>

theorem doSetCachedFindings_eviction_witness:
  "distinct (map fst (cache full_cache))
   \<and> cache full_cache ! 1
       = (''b.md'', \<lparr>hash = ''h2'', findings = [], timestamp = 3, ruleVersion = ''1.0''\<rparr>)
   \<and> list_all (\<lambda>x. 3 \<le> timestamp (snd x)) (cache full_cache)
   \<and> 3 < timestamp (snd (cache full_cache ! 0))
   \<and> maxEntries full_cache \<le> int (length (cache full_cache))
   \<and> 0 < maxEntries full_cache
   \<and> list_all (\<lambda>x. fst x \<noteq> []) (cache full_cache)
   \<and> map fst (cache (evictOldestEntry full_cache)) = [''a.md'', ''c.md'']
   \<and> ''b.md'' \<notin> fst ` set (cache (doSetCachedFindings full_cache ''d.md'' [] ''h4'' 9))
   \<and> map fst (cache (doSetCachedFindings full_cache ''d.md'' [] ''h4'' 9))
       = [''a.md'', ''c.md'', ''d.md'']
   \<and> int (length (cache (doSetCachedFindings full_cache ''d.md'' [] ''h4'' 9)))
       \<le> maxEntries full_cache"
proof -
  let ?e = "\<lparr>hash = ''h2'', findings = [], timestamp = 3, ruleVersion = ''1.0''\<rparr>"
  have h1: "distinct (map fst (cache full_cache))" by (simp add: full_cache_def)
  have at: "cache full_cache ! 1 = (''b.md'', ?e)" by (simp add: full_cache_def)
  have all: "list_all (\<lambda>x. 3 \<le> timestamp (snd x)) (cache full_cache)"
    by (simp add: full_cache_def)
  have least: "\<forall>j < length (cache full_cache).
                 timestamp ?e \<le> timestamp (snd (cache full_cache ! j))"
    using all by (simp add: list_all_length)
  have b0: "3 < timestamp (snd (cache full_cache ! 0))" by (simp add: full_cache_def)
  then have before: "\<forall>j < (1 :: nat). timestamp ?e < timestamp (snd (cache full_cache ! j))"
    by simp
  have trigger: "maxEntries full_cache \<le> int (length (cache full_cache))"
    and pos: "0 < maxEntries full_cache"
    and le: "int (length (cache full_cache)) \<le> maxEntries full_cache"
    by (simp_all add: full_cache_def)
  have ne: "list_all (\<lambda>x. fst x \<noteq> []) (cache full_cache)" by (simp add: full_cache_def)
  then have ne': "[] \<notin> fst ` set (cache full_cache)" by (auto simp: list_all_iff)
  have run: "map fst (cache (doSetCachedFindings full_cache ''d.md'' [] ''h4'' 9))
               = [''a.md'', ''c.md'', ''d.md'']"
    by (simp add: full_cache_def doSetCachedFindings_def evictBeforeInsert_def
        evictOldestEntry_def estimateCacheSize_def Let_def)
  note inst = doSetCachedFindings_eviction [OF h1, of "''d.md''" "[]" "''h4''" 9]
  from inst have "1 < length (cache full_cache) \<and> cache full_cache ! 1 = (''b.md'', ?e)
            \<and> (\<forall>j < length (cache full_cache).
                  timestamp ?e \<le> timestamp (snd (cache full_cache ! j)))
            \<and> (\<forall>j < 1. timestamp ?e < timestamp (snd (cache full_cache ! j)))
            \<and> ''b.md'' \<noteq> []
          \<longrightarrow> evictOldestEntry full_cache
                = full_cache\<lparr>cache := take 1 (cache full_cache) @ drop (Suc 1) (cache full_cache),
                             dirty := True\<rparr>
              \<and> (maxEntries full_cache \<le> int (length (cache full_cache))
                   \<or> maxSizeBytes full_cache \<le> real (estimateCacheSize full_cache)
                 \<longrightarrow> ''b.md'' \<notin> fst ` set (cache (evictBeforeInsert full_cache))
                     \<and> (''d.md'' \<noteq> ''b.md'' \<longrightarrow>
                          ''b.md'' \<notin> fst ` set (cache (doSetCachedFindings full_cache ''d.md'' []
                                                        ''h4'' 9))))"
    by blast
  with at least before trigger
  have ev: "evictOldestEntry full_cache
                = full_cache\<lparr>cache := take 1 (cache full_cache) @ drop (Suc 1) (cache full_cache),
                             dirty := True\<rparr>"
    and gone: "''b.md'' \<notin> fst ` set (cache (doSetCachedFindings full_cache ''d.md'' [] ''h4'' 9))"
    by (simp_all add: full_cache_def)
  from ev have keys: "map fst (cache (evictOldestEntry full_cache)) = [''a.md'', ''c.md'']"
    by (simp add: full_cache_def)
  from inst pos le ne'
  have "int (length (cache (doSetCachedFindings full_cache ''d.md'' [] ''h4'' 9)))
          \<le> maxEntries full_cache"
    by blast
  with h1 at all b0 trigger pos ne keys gone run show ?thesis by blast
qed

text \<open>
  Claim C5 at failing inputs. At the parameters of the repository's own size-limit test
  (\<open>maxEntries = 10000\<close>, \<open>maxSizeMB = 0.001\<close>, fifty findings per file) the first write
  into the empty cache leaves an estimated size of 25092 bytes, above the 1048.576 bytes
  allowed: the size check runs before the insertion, does not count the new entry, and
  is not repeated. The entry count exceeds \<open>maxEntries\<close> after a write when an entry is
  stored under the empty path (\<open>if (oldestPath)\<close> takes the empty string for no path and
  evicts nothing), when the cache was loaded with more entries than \<open>maxEntries\<close> (one
  eviction per check), and when \<open>maxEntries\<close> is 0.
\<close>

theorem doSetCachedFindings_limits_counterexample:
  "estimateCacheSize (doSetCachedFindings (new_ScanCache 10000 0.001) ''a.md''
                        (replicate 50 sample_finding) ''h'' 0) = 25092
   \<and> maxSizeBytes (new_ScanCache 10000 0.001) = 1048.576
   \<and> map fst (cache (doSetCachedFindings
                        (doSetCachedFindings (new_ScanCache 1 100) [] [] ''h0'' 0)
                        ''a.md'' [] ''h1'' 1)) = [[], ''a.md'']
   \<and> maxEntries (new_ScanCache 1 100) = 1
   \<and> map fst (cache (doSetCachedFindings loaded_cache ''c.md'' [] ''h3'' 9)) = [''a.md'', ''c.md'']
   \<and> maxEntries loaded_cache = 1
   \<and> map fst (cache (doSetCachedFindings (new_ScanCache 0 100) ''a.md'' [] ''h'' 0)) = [''a.md'']
   \<and> maxEntries (new_ScanCache 0 100) = 0"
  by (simp add: doSetCachedFindings_def evictBeforeInsert_def evictOldestEntry_def
      estimateCacheSize_def new_ScanCache_def loaded_cache_def Let_def)

subsection \<open>MCP client retry\<close>

declare retry_loop.simps [simp del]

lemma retry_loop_inv:
  "retry_loop fn m b rnd a le ds = (res, calls, ds') \<Longrightarrow> int a \<le> m \<Longrightarrow>
     \<exists>n. calls = Suc n \<and> a \<le> n \<and> int n \<le> m \<and> res = fn n
       \<and> ds' = ds @ map (backoff_delay b rnd) [a..<n]
       \<and> (\<forall>k. a \<le> k \<and> k < n \<longrightarrow> (\<exists>e. fn k = Inl e \<and> \<not> is_client_error e))
       \<and> ((\<exists>v. fn n = Inr v) \<or> (\<exists>e. fn n = Inl e \<and> is_client_error e) \<or> int n = m)"
proof (induction fn m b rnd a le ds rule: retry_loop.induct)
  case (1 fn m b rnd a le ds)
  show ?case
  proof (cases "fn a")
    case (Inr v)
    with "1.prems" have "res = Inr v" "calls = Suc a" "ds' = ds"
      by (auto simp: retry_loop.simps [of fn m b rnd a])
    with Inr "1.prems"(2) show ?thesis by auto
  next
    case (Inl e)
    show ?thesis
    proof (cases "is_client_error e \<or> int a = m")
      case True
      with Inl "1.prems" have "res = Inl e" "calls = Suc a" "ds' = ds"
        by (auto simp: retry_loop.simps [of fn m b rnd a] split: if_splits)
      with Inl True "1.prems"(2) show ?thesis by auto
    next
      case False
      then have nc: "\<not> is_client_error e" and ne: "int a \<noteq> m" by auto
      with "1.prems" have lt: "int (Suc a) \<le> m" by simp
      have step: "retry_loop fn m b rnd (Suc a) (Some e) (ds @ [backoff_delay b rnd a])
                    = (res, calls, ds')"
        using "1.prems" Inl nc ne
        by (simp add: retry_loop.simps [of fn m b rnd a] Let_def backoff_delay_def)
      have "\<exists>n. calls = Suc n \<and> Suc a \<le> n \<and> int n \<le> m \<and> res = fn n
         \<and> ds' = (ds @ [backoff_delay b rnd a]) @ map (backoff_delay b rnd) [Suc a..<n]
         \<and> (\<forall>k. Suc a \<le> k \<and> k < n \<longrightarrow> (\<exists>e. fn k = Inl e \<and> \<not> is_client_error e))
         \<and> ((\<exists>v. fn n = Inr v) \<or> (\<exists>e. fn n = Inl e \<and> is_client_error e) \<or> int n = m)"
        using "1.IH" [OF "1.prems"(2) Inl nc ne refl refl refl _ lt] step
        unfolding backoff_delay_def by simp
      then obtain n where n: "calls = Suc n" "Suc a \<le> n" "int n \<le> m" "res = fn n"
          "ds' = (ds @ [backoff_delay b rnd a]) @ map (backoff_delay b rnd) [Suc a..<n]"
          "\<forall>k. Suc a \<le> k \<and> k < n \<longrightarrow> (\<exists>e. fn k = Inl e \<and> \<not> is_client_error e)"
          "(\<exists>v. fn n = Inr v) \<or> (\<exists>e. fn n = Inl e \<and> is_client_error e) \<or> int n = m"
        by blast
      from n(2) have "[a..<n] = a # [Suc a..<n]" by (simp add: upt_conv_Cons)
      with n(5) have d: "ds' = ds @ map (backoff_delay b rnd) [a..<n]" by simp
      have "\<forall>k. a \<le> k \<and> k < n \<longrightarrow> (\<exists>e. fn k = Inl e \<and> \<not> is_client_error e)"
      proof (intro allI impI)
        fix k assume k: "a \<le> k \<and> k < n"
        show "\<exists>e. fn k = Inl e \<and> \<not> is_client_error e"
        proof (cases "k = a")
          case True
          with Inl nc show ?thesis by simp
        next
          case False
          with k n(6) show ?thesis by (simp add: Suc_leI)
        qed
      qed
      with n d show ?thesis by auto
    qed
  qed
qed


lemma backoff_delay_bounds:
  assumes "0 \<le> random k" "random k < 1" "0 \<le> b"
  shows "b * 2 ^ k \<le> backoff_delay b random k \<and> backoff_delay b random k \<le> 1.3 * (b * 2 ^ k)"
proof -
  have d: "0 \<le> b * 2 ^ k" using assms(3) by simp
  have "0 \<le> random k * 0.3 * (b * 2 ^ k)" using assms(1) d by simp
  moreover have "random k * 0.3 * (b * 2 ^ k) \<le> 1 * 0.3 * (b * 2 ^ k)"
    using assms(2) d by (intro mult_right_mono) auto
  ultimately show ?thesis by (simp add: backoff_delay_def)
qed

text \<open>The error the closure throws for each kind of reply.\<close>

lemma request_FetchRejected: "request P FetchRejected = Inl (McpRpcError None)"
  by (simp add: request_def)

lemma request_TextRejected: "request P TextRejected = Inl OtherError"
  by (simp add: request_def)

lemma request_error_code:
  assumes "parse_body P text = Some json" "err_code json = Some c"
  shows "request P (Response status text) = Inl (McpRpcError (Some c))"
proof -
  from assms(2) obtain err where "json_error json = Some err" "code err = Some c"
    by (auto simp: err_code_def split: option.splits)
  with assms show ?thesis by (simp add: request_def)
qed

lemma request_status_code:
  assumes "\<not> res_ok status"
    and "parse_body P text = None \<or> (\<exists>json. parse_body P text = Some json \<and> err_code json = None)"
  shows "request P (Response status text) = Inl (McpRpcError (Some (of_int status)))"
  using assms by (auto simp: request_def)

lemma jsonText_of_sse:
  "jsonText_of (js ''event: message'' @ [0x0A] @ js ''data: abc '' @ [0x0A]) = js ''abc''"
  "jsonText_of (js ''{}'') = js ''{}''"
  by code_simp+

text \<open>
  The closure at some replies: a result; an error code in an \<open>ok\<close> response; an error
  without code, in an \<open>ok\<close> response and in a 404; a body that does not parse; an empty
  body; an array, in an \<open>ok\<close> response and in a 500; a result in an event stream.
\<close>

lemma request_examples:
  "request (\<lambda>t. Some (JObject None (Some (7 :: nat)))) (Response 200 (js ''x'')) = Inr 7"
  "request (\<lambda>t. Some (JObject (Some \<lparr>code = Some (- 32601)\<rparr>) (Some (7 :: nat))))
     (Response 200 (js ''x'')) = Inl (McpRpcError (Some (- 32601)))"
  "request (\<lambda>t. Some (JObject (Some \<lparr>code = None\<rparr>) (Some (7 :: nat))))
     (Response 200 (js ''x'')) = Inl (McpRpcError None)"
  "request (\<lambda>t. Some (JObject (Some \<lparr>code = None\<rparr>) (Some (7 :: nat))))
     (Response 404 (js ''x'')) = Inl (McpRpcError (Some 404))"
  "request (\<lambda>t. (None :: nat json option)) (Response 200 (js ''x'')) = Inl (McpRpcError (Some 200))"
  "request (\<lambda>t. (None :: nat json option)) (Response 200 []) = Inl (McpRpcError None)"
  "request (\<lambda>t. (Some JArray :: nat json option)) (Response 200 (js ''[]''))
     = Inl (McpRpcError None)"
  "request (\<lambda>t. (Some JArray :: nat json option)) (Response 500 (js ''[]''))
     = Inl (McpRpcError (Some 500))"
  "request (\<lambda>t. if t = js ''abc'' then Some (JObject None (Some (1 :: nat))) else None)
     (Response 200 (js ''event: message'' @ [0x0A] @ js ''data:  abc '' @ [0x0A, 0x0A])) = Inr 1"
  by (simp_all add: request_def parse_body_def jsonText_of_def js_def res_ok_def err_code_def
      trim_def isSpace_def)

lemma client_error_code:
  "c = - 32601 \<or> (400 \<le> c \<and> c < 500) \<Longrightarrow> is_client_error (McpRpcError (Some c))"
  by auto

text \<open>
  Claim C7, the part that holds. Let \<open>m\<close> be the retry budget of an \<open>rpc\<close> call
  (\<open>maxRetries\<close>, 3 by default) and \<open>b\<close> its base delay (1000 ms by default), with \<open>m\<close> not
  negative. The request is made at least once and at most \<open>m + 1\<close> times, and the call
  ends with the outcome of the last request. A request is the last one made (so the
  first request runs exactly once) when its response carries a JSON-RPC error with the
  code -32601 or a code from 400 to 499, whatever the HTTP status, and when its response
  has an HTTP status from 400 to 499 and a body that does not parse or holds no error
  code. When every request fails by a rejected \<open>fetch\<close>, a rejected \<open>res.text()\<close> or an
  HTTP status from 500 to 599 with a body that does not parse or holds no error code,
  exactly \<open>m + 1\<close> requests are made. The delay after the failed attempt \<open>k\<close> is
  \<open>b * 2 ^ k\<close> plus \<open>random * 0.3\<close> times that, which for \<open>random\<close> in \<open>[0, 1)\<close> lies
  between \<open>b * 2 ^ k\<close> and 1.3 times it.
\<close>

theorem rpc_retry_policy:
  assumes "rpc JSON_parse fetch options random = (res, calls, delays)"
    and "m = (case opt_maxRetries options of None \<Rightarrow> 3 | Some r \<Rightarrow> r)"
    and "b = (case opt_retryDelayMs options of None \<Rightarrow> 1000 | Some d \<Rightarrow> d)"
    and "0 \<le> m"
  shows "1 \<le> calls \<and> int calls \<le> m + 1 \<and> res = request JSON_parse (fetch (calls - 1))
       \<and> (\<forall>k < calls. \<forall>status text json c.
             fetch k = Response status text \<and> parse_body JSON_parse text = Some json
             \<and> err_code json = Some c \<and> (c = - 32601 \<or> (400 \<le> c \<and> c < 500))
           \<longrightarrow> calls = Suc k)
       \<and> (\<forall>k < calls. \<forall>status text.
             fetch k = Response status text \<and> 400 \<le> status \<and> status < 500
             \<and> (parse_body JSON_parse text = None
                \<or> (\<exists>json. parse_body JSON_parse text = Some json \<and> err_code json = None))
           \<longrightarrow> calls = Suc k)
       \<and> ((\<forall>k. int k \<le> m \<longrightarrow>
              fetch k = FetchRejected \<or> fetch k = TextRejected
              \<or> (\<exists>status text. fetch k = Response status text \<and> 500 \<le> status \<and> status < 600
                    \<and> (parse_body JSON_parse text = None
                       \<or> (\<exists>json. parse_body JSON_parse text = Some json
                                  \<and> err_code json = None))))
            \<longrightarrow> int calls = m + 1)
       \<and> delays = map (\<lambda>k. b * 2 ^ k + random k * 0.3 * (b * 2 ^ k)) [0..<calls - 1]
       \<and> (0 \<le> b \<and> (\<forall>k. 0 \<le> random k \<and> random k < 1) \<longrightarrow>
            (\<forall>i < length delays. b * 2 ^ i \<le> delays ! i \<and> delays ! i \<le> 1.3 * (b * 2 ^ i)))"
proof -
  define fn where "fn = (\<lambda>k. request JSON_parse (fetch k))"
  have run: "retry_loop fn m b random 0 None [] = (res, calls, delays)"
    using assms(1-3) by (simp add: rpc_def retryWithBackoff_def fn_def)
  from retry_loop_inv [OF run] assms(4)
  obtain n where n: "calls = Suc n" "int n \<le> m" "res = fn n"
      "delays = map (backoff_delay b random) [0..<n]"
      "\<forall>k. k < n \<longrightarrow> (\<exists>e. fn k = Inl e \<and> \<not> is_client_error e)"
      "(\<exists>v. fn n = Inr v) \<or> (\<exists>e. fn n = Inl e \<and> is_client_error e) \<or> int n = m"
    by auto
  have last: "calls = Suc k" if "k < calls" "fn k = Inl e" "is_client_error e" for k e
  proof -
    have "\<not> k < n" using n(5) that(2,3) by auto
    with that(1) n(1) show ?thesis by simp
  qed
  have a: "1 \<le> calls \<and> int calls \<le> m + 1 \<and> res = request JSON_parse (fetch (calls - 1))"
    using n(1-3) by (simp add: fn_def)
  have b1: "\<forall>k < calls. \<forall>status text json c.
             fetch k = Response status text \<and> parse_body JSON_parse text = Some json
             \<and> err_code json = Some c \<and> (c = - 32601 \<or> (400 \<le> c \<and> c < 500))
           \<longrightarrow> calls = Suc k"
  proof (intro allI impI)
    fix k status body json c
    assume k: "k < calls"
      and h: "fetch k = Response status body \<and> parse_body JSON_parse body = Some json
             \<and> err_code json = Some c \<and> (c = - 32601 \<or> (400 \<le> c \<and> c < 500))"
    then have "fn k = Inl (McpRpcError (Some c))"
      by (simp add: fn_def request_error_code)
    moreover from h have "is_client_error (McpRpcError (Some c))"
      by (intro client_error_code) simp
    ultimately show "calls = Suc k" using k by (intro last)
  qed
  have b2: "\<forall>k < calls. \<forall>status text.
             fetch k = Response status text \<and> 400 \<le> status \<and> status < 500
             \<and> (parse_body JSON_parse text = None
                \<or> (\<exists>json. parse_body JSON_parse text = Some json \<and> err_code json = None))
           \<longrightarrow> calls = Suc k"
  proof (intro allI impI)
    fix k status body
    assume k: "k < calls"
      and h: "fetch k = Response status body \<and> 400 \<le> status \<and> status < 500
             \<and> (parse_body JSON_parse body = None
                \<or> (\<exists>json. parse_body JSON_parse body = Some json \<and> err_code json = None))"
    then have "\<not> res_ok status" by (simp add: res_ok_def)
    with h have "fn k = Inl (McpRpcError (Some (of_int status)))"
      by (simp add: fn_def request_status_code)
    moreover from h have "is_client_error (McpRpcError (Some (of_int status)))"
      by (intro client_error_code) simp
    ultimately show "calls = Suc k" using k by (intro last)
  qed
  have c: "(\<forall>k. int k \<le> m \<longrightarrow>
              fetch k = FetchRejected \<or> fetch k = TextRejected
              \<or> (\<exists>status text. fetch k = Response status text \<and> 500 \<le> status \<and> status < 600
                    \<and> (parse_body JSON_parse text = None
                       \<or> (\<exists>json. parse_body JSON_parse text = Some json
                                  \<and> err_code json = None))))
            \<longrightarrow> int calls = m + 1"
  proof
    assume all: "\<forall>k. int k \<le> m \<longrightarrow>
              fetch k = FetchRejected \<or> fetch k = TextRejected
              \<or> (\<exists>status text. fetch k = Response status text \<and> 500 \<le> status \<and> status < 600
                    \<and> (parse_body JSON_parse text = None
                       \<or> (\<exists>json. parse_body JSON_parse text = Some json
                                  \<and> err_code json = None)))"
    with n(2) consider "fetch n = FetchRejected" | "fetch n = TextRejected"
      | status body where "fetch n = Response status body" "500 \<le> status" "status < 600"
          "parse_body JSON_parse body = None
           \<or> (\<exists>json. parse_body JSON_parse body = Some json \<and> err_code json = None)"
      by blast
    then have "\<exists>e. fn n = Inl e \<and> \<not> is_client_error e"
    proof cases
      case 1
      then show ?thesis by (simp add: fn_def request_FetchRejected)
    next
      case 2
      then show ?thesis by (simp add: fn_def request_TextRejected)
    next
      case 3
      from 3(2) have "\<not> res_ok status" by (simp add: res_ok_def)
      with 3(1,4) have "fn n = Inl (McpRpcError (Some (of_int status)))"
        by (simp add: fn_def request_status_code)
      moreover from 3(2) have "\<not> is_client_error (McpRpcError (Some (of_int status)))"
        by simp
      ultimately show ?thesis by blast
    qed
    with n(6) have "int n = m" by auto
    with n(1) show "int calls = m + 1" by simp
  qed
  have d: "delays = map (\<lambda>k. b * 2 ^ k + random k * 0.3 * (b * 2 ^ k)) [0..<calls - 1]"
    using n(1,4) by (simp add: backoff_delay_def [abs_def])
  have e: "0 \<le> b \<and> (\<forall>k. 0 \<le> random k \<and> random k < 1) \<longrightarrow>
            (\<forall>i < length delays. b * 2 ^ i \<le> delays ! i \<and> delays ! i \<le> 1.3 * (b * 2 ^ i))"
  proof (intro impI allI)
    fix i assume h: "0 \<le> b \<and> (\<forall>k. 0 \<le> random k \<and> random k < 1)" and i: "i < length delays"
    from i n(4) have "delays ! i = backoff_delay b random i" by simp
    with backoff_delay_bounds [of random i b] h
    show "b * 2 ^ i \<le> delays ! i \<and> delays ! i \<le> 1.3 * (b * 2 ^ i)" by simp
  qed
  from a b1 b2 c d e show ?thesis by blast
qed

text \<open>
  With the defaults: the server is unreachable, then answers 503, then 404, each time
  with an empty body. The first two requests are retried after 1150 ms and 2300 ms
  (\<open>random = 0.5\<close>), the 404 ends the call after three requests.
\<close>

theorem rpc_retry_policy_witness:
  "rpc no_parse flaky_fetch default_options (\<lambda>k. 1 / 2)
     = (Inl (McpRpcError (Some 404)), 3, [1150, 2300])
   \<and> (3 :: int) = (case opt_maxRetries default_options of None \<Rightarrow> 3 | Some r \<Rightarrow> r)
   \<and> (1000 :: real) = (case opt_retryDelayMs default_options of None \<Rightarrow> 1000 | Some d \<Rightarrow> d)
   \<and> (0 :: int) \<le> 3
   \<and> (2 :: nat) < 3 \<and> flaky_fetch 2 = Response 404 []
   \<and> (400 :: int) \<le> 404 \<and> (404 :: int) < 500
   \<and> parse_body no_parse [] = Some JNull \<and> err_code (JNull :: unit json) = None
   \<and> (3 :: nat) = Suc 2
   \<and> (0::real) \<le> 1000 \<and> (\<forall>k :: nat. (0 :: real) \<le> 1 / 2 \<and> (1 / 2 :: real) < 1)
   \<and> (1000 :: real) * 2 ^ 1 \<le> [1150, 2300] ! 1 \<and> [1150, 2300] ! 1 \<le> (1.3 :: real) * (1000 * 2 ^ 1)"
proof -
  have pb: "parse_body no_parse [] = Some JNull"
    by (simp add: parse_body_def jsonText_of_def js_def)
  have ec: "err_code (JNull :: unit json) = None" by (simp add: err_code_def)
  have req: "request no_parse FetchRejected = Inl (McpRpcError None)"
    "request no_parse (Response 503 []) = Inl (McpRpcError (Some 503))"
    "request no_parse (Response 404 []) = Inl (McpRpcError (Some 404))"
    by (simp_all add: request_def pb ec res_ok_def)
  have run: "rpc no_parse flaky_fetch default_options (\<lambda>k. 1 / 2)
               = (Inl (McpRpcError (Some 404)), 3, [1150, 2300])"
    by (simp add: rpc_def retryWithBackoff_def default_options_def flaky_fetch_def
        retry_loop.simps req)
  have m: "(3 :: int) = (case opt_maxRetries default_options of None \<Rightarrow> 3 | Some r \<Rightarrow> r)"
    and b: "(1000 :: real) = (case opt_retryDelayMs default_options of None \<Rightarrow> 1000 | Some d \<Rightarrow> d)"
    by (simp_all add: default_options_def)
  have nn: "(0 :: int) \<le> 3" by simp
  have f2: "(2 :: nat) < 3 \<and> flaky_fetch 2 = Response 404 []"
    by (simp add: flaky_fetch_def)
  have st: "(400 :: int) \<le> 404 \<and> (404 :: int) < 500" by simp
  have rb: "(0::real) \<le> 1000 \<and> (\<forall>k :: nat. (0 :: real) \<le> 1 / 2 \<and> (1 / 2 :: real) < 1)" by simp
  note inst = rpc_retry_policy [OF run m b nn]
  from inst have "\<forall>k < (3 :: nat). \<forall>status body.
             flaky_fetch k = Response status body \<and> 400 \<le> status \<and> status < 500
             \<and> (parse_body no_parse body = None
                \<or> (\<exists>json. parse_body no_parse body = Some json \<and> err_code json = None))
           \<longrightarrow> (3 :: nat) = Suc k"
    by blast
  with f2 st pb ec have last: "(3 :: nat) = Suc 2" by blast
  from inst rb
  have "\<forall>i < length [1150, 2300 :: real].
          (1000 :: real) * 2 ^ i \<le> [1150, 2300] ! i \<and> [1150, 2300] ! i \<le> (1.3 :: real) * (1000 * 2 ^ i)"
    by blast
  then have "(1000 :: real) * 2 ^ 1 \<le> [1150, 2300] ! 1
             \<and> [1150, 2300] ! 1 \<le> (1.3 :: real) * (1000 * 2 ^ 1)"
    by (metis One_nat_def length_Cons lessI list.size(3))
  with run m b nn f2 st pb ec last rb show ?thesis by blast
qed

text \<open>
  Claim C7 at a failing input: a server that answers every request with the HTTP status
  404 and the body \<open>{"error":{"code":-32000}}\<close>, called with the default options. The
  response is not \<open>ok\<close>, the error is thrown with the code of the body, -32000, and is
  retried: the request runs four times, with three waits, where the claim has it run
  once.
\<close>

theorem rpc_http_4xx_retried_counterexample:
  "error_fetch 0 = Response 404 error_body
   \<and> parse_body error_parse error_body = Some (JObject (Some \<lparr>code = Some (- 32000)\<rparr>) None)
   \<and> request error_parse (Response 404 error_body) = Inl (McpRpcError (Some (- 32000)))
   \<and> rpc error_parse error_fetch default_options (\<lambda>k. 1 / 2)
       = (Inl (McpRpcError (Some (- 32000))), 4, [1150, 2300, 4600])"
proof -
  have ne: "error_body \<noteq> []" and ev: "\<not> prefix (js ''event:'') error_body"
    by (simp_all add: error_body_def js_def)
  then have pb: "parse_body error_parse error_body
                   = Some (JObject (Some \<lparr>code = Some (- 32000)\<rparr>) None)"
    by (simp add: parse_body_def jsonText_of_def error_parse_def)
  have req: "request error_parse (Response 404 error_body) = Inl (McpRpcError (Some (- 32000)))"
    by (simp add: request_def pb res_ok_def err_code_def)
  have "rpc error_parse error_fetch default_options (\<lambda>k. 1 / 2)
       = (Inl (McpRpcError (Some (- 32000))), 4, [1150, 2300, 4600])"
    by (simp add: rpc_def retryWithBackoff_def default_options_def error_fetch_def
        retry_loop.simps req)
  with pb req show ?thesis by (simp add: error_fetch_def)
qed

subsection \<open>MCP resource text\<close>

text \<open>
  Claim C8 at two failing inputs, both with \<open>max_resource_bytes = 3\<close>. One text field of
  three code units U+20AC: its UTF-8 encoding is 9 bytes long, more than 3, so the text
  is cut with \<open>slice(0, 3)\<close>, which counts code units and keeps all three; the stored
  content still encodes to 9 bytes. Two text fields of the one code unit U+00E9: joined
  with a line feed they are three code units and 5 bytes, and all 5 bytes are stored.
  The claim has at most 3 bytes stored in both cases.
\<close>

theorem storedContent_byte_cap_exceeded:
  "storedContent [Some [0x20AC, 0x20AC, 0x20AC]] 3 = Some [0x20AC, 0x20AC, 0x20AC]
   \<and> utf8_byteLength [0x20AC, 0x20AC, 0x20AC] = 9
   \<and> storedContent [Some [0xE9], Some [0xE9]] 3 = Some [0xE9, 0x0A, 0xE9]
   \<and> utf8_byteLength [0xE9, 0x0A, 0xE9] = 5"
  by (simp add: storedContent_def pickTextContent_def text_parts_def List.map_filter_def)

subsection \<open>Rule engine\<close>

lemma find_literal_from_range:
  "find_literal_from pat s pos k = Some (i, n) \<Longrightarrow> pos \<le> i \<and> k \<le> i \<and> i + n \<le> pos + length s"
proof (induction s arbitrary: pos)
  case Nil
  then show ?case by (auto split: if_splits)
next
  case (Cons c cs)
  show ?case
  proof (cases "k \<le> pos \<and> prefix pat (c # cs)")
    case True
    with Cons.prems have "i = pos" "n = length pat" by auto
    with True show ?thesis by (auto dest: prefix_length_le)
  next
    case False
    with Cons.prems have "find_literal_from pat cs (Suc pos) k = Some (i, n)" by auto
    from Cons.IH [OF this] show ?thesis by simp
  qed
qed

lemma literal_regex_wf: "regex_wf (literal_regex pat)"
  unfolding regex_wf_def literal_regex_def
  using find_literal_from_range [of pat _ 0] by fastforce

lemma regex_wf_lastIndex [simp]: "regex_wf (re\<lparr>lastIndex := k\<rparr>) = regex_wf re"
  by (simp add: regex_wf_def)

lemma regex_exec_Some:
  assumes "regex_wf re" "regex_exec re s = (Some (i, n), re')"
  shows "lastIndex re \<le> i \<and> i + n \<le> length s \<and> re' = re\<lparr>lastIndex := i + n\<rparr>"
proof -
  from assms(2) have le: "lastIndex re \<le> length s"
    by (auto simp: regex_exec_def split: if_splits)
  with assms(2) have f: "find re s (lastIndex re) = Some (i, n)" and r: "re' = re\<lparr>lastIndex := i + n\<rparr>"
    by (auto simp: regex_exec_def split: if_splits option.splits)
  from assms(1) le f have "lastIndex re \<le> i \<and> i + n \<le> length s"
    unfolding regex_wf_def by blast
  with r show ?thesis by simp
qed

lemma execWithTimeout_Some:
  assumes "regex_wf re" "execWithTimeout now re s timeoutMs t = (Some (i, n), re', t')"
  shows "lastIndex re \<le> i \<and> i + n \<le> length s \<and> re' = re\<lparr>lastIndex := i + n\<rparr>
         \<and> regex_exec re s = (Some (i, n), re')"
proof -
  obtain m r where e: "regex_exec re s = (m, r)" by (cases "regex_exec re s")
  with assms(2) have "m = Some (i, n)" "r = re'"
    by (auto simp: execWithTimeout_def Let_def split: if_splits)
  with e regex_exec_Some [OF assms(1)] show ?thesis by auto
qed

lemma grows_refl: "grows rule a a"
  by (simp add: grows_def)

lemma grows_trans: "grows rule a b \<Longrightarrow> grows rule b c \<Longrightarrow> grows rule a c"
  unfolding grows_def
proof -
  assume "\<exists>new. snd b = snd a @ new \<and> fst b = fst a + length new \<and> (\<forall>f\<in>set new. ruleId f = rule_id rule)"
    and "\<exists>new. snd c = snd b @ new \<and> fst c = fst b + length new \<and> (\<forall>f\<in>set new. ruleId f = rule_id rule)"
  then obtain n1 n2 where "snd b = snd a @ n1" "fst b = fst a + length n1" "\<forall>f\<in>set n1. ruleId f = rule_id rule"
     "snd c = snd b @ n2" "fst c = fst b + length n2" "\<forall>f\<in>set n2. ruleId f = rule_id rule" by blast
  then have "snd c = snd a @ (n1 @ n2) \<and> fst c = fst a + length (n1 @ n2) \<and> (\<forall>f\<in>set (n1 @ n2). ruleId f = rule_id rule)"
    by auto
  then show "\<exists>new. snd c = snd a @ new \<and> fst c = fst a + length new \<and> (\<forall>f\<in>set new. ruleId f = rule_id rule)"
    by blast
qed

lemma grows_push:
  "grows rule (h, fs) (Suc h, fs @ [new_finding rule filePath l])"
  unfolding grows_def by (rule exI [of _ "[new_finding rule filePath l]"]) (simp add: new_finding_def)

text \<open>What one step does to the cursor, the hit count and the findings.\<close>

lemma match_step_Continue:
  assumes wf: "regex_wf (ls_regex st)"
    and step: "match_step T now rule content filePath lineIndex t0 st = Continue st'"
  shows "lastIndex (ls_regex st) < lastIndex (ls_regex st')
       \<and> lastIndex (ls_regex st') \<le> length content + 1
       \<and> regex_wf (ls_regex st')
       \<and> grows rule (ls_ruleHits st, ls_findings st) (ls_ruleHits st', ls_findings st')
       \<and> (ls_ruleHits st' = ls_ruleHits st \<or> ls_ruleHits st' < MAX_FINDINGS_PER_RULE_PER_FILE)"
proof -
  obtain m re' t' where e: "execWithTimeout now (ls_regex st) content T (ls_tick st) = (m, re', t')"
    by (cases "execWithTimeout now (ls_regex st) content T (ls_tick st)")
  from step e obtain i n where m: "m = Some (i, n)"
    by (cases m) (auto simp: match_step_def)
  from execWithTimeout_Some [OF wf e [unfolded m]]
  have r: "lastIndex (ls_regex st) \<le> i" "i + n \<le> length content"
      "re' = (ls_regex st)\<lparr>lastIndex := i + n\<rparr>"
    by auto
  have nb: "\<not> now t' - t0 > T * 5"
    using step e m by (auto simp: match_step_def)
  show ?thesis
  proof (cases "n = 0")
    case True
    with step e m nb have "st' = st\<lparr>ls_regex := re'\<lparr>lastIndex := lastIndex re' + 1\<rparr>,
                                   ls_tick := t' + 1\<rparr>"
      by (simp add: match_step_def)
    with r True wf show ?thesis by (simp add: grows_refl)
  next
    case False
    obtain b ex' where x: "isExcluded (ls_excludes st) (take n (drop i content)) = (b, ex')"
      by (cases "isExcluded (ls_excludes st) (take n (drop i content))")
    show ?thesis
    proof (cases b)
      case True
      with step e m nb False x have "st' = st\<lparr>ls_regex := re', ls_excludes := ex',
                                              ls_tick := t' + 1\<rparr>"
        by (simp add: match_step_def)
      with r False wf show ?thesis by (simp add: grows_refl)
    next
      case nx: False
      define st2 where "st2 = st\<lparr>ls_regex := re', ls_excludes := ex',
                               ls_ruleHits := ls_ruleHits st + 1,
                               ls_findings := ls_findings st
                                  @ [new_finding rule filePath (indexToLine lineIndex i)],
                               ls_tick := t' + 1\<rparr>"
      from step e m nb False x nx
      have "st' = st2 \<and> \<not> ls_ruleHits st2 \<ge> MAX_FINDINGS_PER_RULE_PER_FILE"
        by (auto simp: match_step_def Let_def st2_def split: if_splits)
      with r False wf show ?thesis by (simp add: st2_def grows_push)
    qed
  qed
qed

lemma match_step_Break:
  assumes step: "match_step T now rule content filePath lineIndex t0 st = Break st'"
  shows "grows rule (ls_ruleHits st, ls_findings st) (ls_ruleHits st', ls_findings st')
       \<and> ls_ruleHits st' \<le> ls_ruleHits st + 1"
proof -
  obtain m re' t' where e: "execWithTimeout now (ls_regex st) content T (ls_tick st) = (m, re', t')"
    by (cases "execWithTimeout now (ls_regex st) content T (ls_tick st)")
  show ?thesis
  proof (cases m)
    case None
    with step e have "st' = st\<lparr>ls_regex := re', ls_tick := t'\<rparr>"
      by (simp add: match_step_def)
    then show ?thesis by (simp add: grows_refl)
  next
    case (Some p)
    obtain i n where p: "p = (i, n)" by (cases p)
    obtain b ex' where x: "isExcluded (ls_excludes st) (take n (drop i content)) = (b, ex')"
      by (cases "isExcluded (ls_excludes st) (take n (drop i content))")
    from step e Some p x
    have "st' = st\<lparr>ls_regex := re', ls_tick := t' + 1\<rparr>
        \<or> st' = st\<lparr>ls_regex := re', ls_excludes := ex',
                               ls_ruleHits := ls_ruleHits st + 1,
                               ls_findings := ls_findings st
                                  @ [new_finding rule filePath (indexToLine lineIndex i)],
                               ls_tick := t' + 1\<rparr>"
      by (auto simp: match_step_def Let_def split: if_splits bool.splits)
    then show ?thesis by (auto simp: grows_refl grows_push)
  qed
qed

text \<open>The loop ends, and its result respects the cap.\<close>

lemma match_loop_total:
  assumes "regex_wf (ls_regex st)"
  shows "\<exists>st'. match_loop T now rule content filePath lineIndex t0 st = Some st'
           \<and> grows rule (ls_ruleHits st, ls_findings st) (ls_ruleHits st', ls_findings st')
           \<and> (ls_ruleHits st < MAX_FINDINGS_PER_RULE_PER_FILE
                \<longrightarrow> ls_ruleHits st' \<le> MAX_FINDINGS_PER_RULE_PER_FILE)"
  using assms
proof (induction "length content + 1 - lastIndex (ls_regex st)" arbitrary: st rule: less_induct)
  case less
  show ?case
  proof (cases "match_step T now rule content filePath lineIndex t0 st")
    case (Break st')
    then have "match_loop T now rule content filePath lineIndex t0 st = Some st'"
      by (subst match_loop.simps) simp
    with match_step_Break [OF Break] show ?thesis by auto
  next
    case (Continue st1)
    from match_step_Continue [OF less.prems Continue]
    have c: "lastIndex (ls_regex st) < lastIndex (ls_regex st1)"
        "lastIndex (ls_regex st1) \<le> length content + 1" "regex_wf (ls_regex st1)"
        "grows rule (ls_ruleHits st, ls_findings st) (ls_ruleHits st1, ls_findings st1)"
        "ls_ruleHits st1 = ls_ruleHits st \<or> ls_ruleHits st1 < MAX_FINDINGS_PER_RULE_PER_FILE"
      by auto
    from c(1,2) have "length content + 1 - lastIndex (ls_regex st1)
                      < length content + 1 - lastIndex (ls_regex st)" by linarith
    from less.hyps [OF this c(3)]
    obtain st' where s: "match_loop T now rule content filePath lineIndex t0 st1 = Some st'"
        "grows rule (ls_ruleHits st1, ls_findings st1) (ls_ruleHits st', ls_findings st')"
        "ls_ruleHits st1 < MAX_FINDINGS_PER_RULE_PER_FILE
           \<longrightarrow> ls_ruleHits st' \<le> MAX_FINDINGS_PER_RULE_PER_FILE"
      by blast
    have "match_loop T now rule content filePath lineIndex t0 st = Some st'"
      using Continue s(1) by (subst match_loop.simps) simp
    moreover have "grows rule (ls_ruleHits st, ls_findings st) (ls_ruleHits st', ls_findings st')"
      using c(4) s(2) by (rule grows_trans)
    moreover have "ls_ruleHits st < MAX_FINDINGS_PER_RULE_PER_FILE
                \<longrightarrow> ls_ruleHits st' \<le> MAX_FINDINGS_PER_RULE_PER_FILE"
      using c(5) s(3) by auto
    ultimately show ?thesis by blast
  qed
qed


lemma scan_regexes_total:
  assumes "\<forall>re \<in> set res. regex_wf re" and "h < MAX_FINDINGS_PER_RULE_PER_FILE"
  shows "\<exists>res' ex' h' fs' t'.
           scan_regexes T now rule content filePath lineIndex res (ex, h, fs, t)
             = Some (res', ex', h', fs', t')
           \<and> grows rule (h, fs) (h', fs') \<and> h' \<le> MAX_FINDINGS_PER_RULE_PER_FILE"
  using assms
proof (induction res arbitrary: ex h fs t)
  case Nil
  then show ?case by (simp add: grows_refl)
next
  case (Cons re res)
  let ?st = "\<lparr>ls_regex = re\<lparr>lastIndex := 0\<rparr>, ls_excludes = ex, ls_ruleHits = h,
              ls_findings = fs, ls_tick = t + 1\<rparr>"
  have "regex_wf (ls_regex ?st)" using Cons.prems(1) by simp
  from match_loop_total [OF this, of T now rule content filePath lineIndex "now t"]
  obtain st' where s: "match_loop T now rule content filePath lineIndex (now t) ?st = Some st'"
      "grows rule (h, fs) (ls_ruleHits st', ls_findings st')"
      "ls_ruleHits st' \<le> MAX_FINDINGS_PER_RULE_PER_FILE"
    using Cons.prems(2) by auto
  show ?case
  proof (cases "ls_ruleHits st' \<ge> MAX_FINDINGS_PER_RULE_PER_FILE")
    case True
    with s show ?thesis by (simp add: Let_def)
  next
    case False
    then have lt: "ls_ruleHits st' < MAX_FINDINGS_PER_RULE_PER_FILE" by simp
    have wf: "\<forall>re \<in> set res. regex_wf re" using Cons.prems(1) by simp
    from Cons.IH [OF wf lt, of "ls_excludes st'" "ls_findings st'" "ls_tick st'"]
    obtain res' ex' h' fs' t' where r:
        "scan_regexes T now rule content filePath lineIndex res
           (ls_excludes st', ls_ruleHits st', ls_findings st', ls_tick st')
         = Some (res', ex', h', fs', t')"
        "grows rule (ls_ruleHits st', ls_findings st') (h', fs')"
        "h' \<le> MAX_FINDINGS_PER_RULE_PER_FILE"
      by blast
    have "scan_regexes T now rule content filePath lineIndex (re # res) (ex, h, fs, t)
            = Some (ls_regex st' # res', ex', h', fs', t')"
      using s(1) False r(1) by (simp add: Let_def)
    moreover have "grows rule (h, fs) (h', fs')" using s(2) r(2) by (rule grows_trans)
    ultimately show ?thesis using r(3) by blast
  qed
qed

lemma grows_count:
  assumes "grows rule (h, fs) (h', fs')"
  shows "length (filter (\<lambda>f. ruleId f = rid) fs')
           \<le> length (filter (\<lambda>f. ruleId f = rid) fs) + (if rule_id rule = rid then h' - h else 0)"
proof -
  from assms obtain new where n: "fs' = fs @ new" "h' = h + length new"
      "\<forall>f \<in> set new. ruleId f = rule_id rule"
    by (auto simp: grows_def)
  have "length (filter (\<lambda>f. ruleId f = rid) new) \<le> (if rule_id rule = rid then length new else 0)"
  proof (cases "rule_id rule = rid")
    case True
    then show ?thesis by simp
  next
    case False
    with n(3) have "filter (\<lambda>f. ruleId f = rid) new = []" by (auto simp: filter_empty_conv)
    then show ?thesis by simp
  qed
  with n(1,2) show ?thesis by auto
qed

lemma scan_rules_total:
  assumes "rules_wf rules"
  shows "\<exists>fs' rules' t'.
           scan_rules T now content filePath fileType lineIndex rules (fs, t) = Some (fs', rules', t')
           \<and> (\<forall>rid. length (filter (\<lambda>f. ruleId f = rid) fs')
                 \<le> length (filter (\<lambda>f. ruleId f = rid) fs)
                    + MAX_FINDINGS_PER_RULE_PER_FILE * length (filter (\<lambda>r. rule_id r = rid) rules))"
  using assms
proof (induction rules arbitrary: fs t)
  case Nil
  then show ?case by simp
next
  case (Cons rule rules)
  have wfs: "rules_wf rules" and wf: "\<forall>re \<in> set (compiled rule). regex_wf re"
    using Cons.prems by (auto simp: rules_wf_def)
  show ?case
  proof (cases "isFileTypeMatch rule fileType")
    case False
    from Cons.IH [OF wfs, of fs t]
    obtain fs' rules' t' where r:
      "scan_rules T now content filePath fileType lineIndex rules (fs, t) = Some (fs', rules', t')"
      "\<forall>rid. length (filter (\<lambda>f. ruleId f = rid) fs')
                 \<le> length (filter (\<lambda>f. ruleId f = rid) fs)
                    + MAX_FINDINGS_PER_RULE_PER_FILE * length (filter (\<lambda>r. rule_id r = rid) rules)"
      by blast
    have "scan_rules T now content filePath fileType lineIndex (rule # rules) (fs, t)
            = Some (fs', rule # rules', t')"
      using False r(1) by simp
    moreover have "\<forall>rid. length (filter (\<lambda>f. ruleId f = rid) fs')
                 \<le> length (filter (\<lambda>f. ruleId f = rid) fs)
                    + MAX_FINDINGS_PER_RULE_PER_FILE
                        * length (filter (\<lambda>r. rule_id r = rid) (rule # rules))"
    proof
      fix rid
      from r(2) have "length (filter (\<lambda>f. ruleId f = rid) fs')
                 \<le> length (filter (\<lambda>f. ruleId f = rid) fs)
                    + MAX_FINDINGS_PER_RULE_PER_FILE * length (filter (\<lambda>r. rule_id r = rid) rules)"
        by blast
      also have "\<dots> \<le> length (filter (\<lambda>f. ruleId f = rid) fs)
                    + MAX_FINDINGS_PER_RULE_PER_FILE
                        * length (filter (\<lambda>r. rule_id r = rid) (rule # rules))"
        by simp
      finally show "length (filter (\<lambda>f. ruleId f = rid) fs')
                 \<le> length (filter (\<lambda>f. ruleId f = rid) fs)
                    + MAX_FINDINGS_PER_RULE_PER_FILE
                        * length (filter (\<lambda>r. rule_id r = rid) (rule # rules))" .
    qed
    ultimately show ?thesis by blast
  next
    case True
    have "0 < MAX_FINDINGS_PER_RULE_PER_FILE" by (simp add: MAX_FINDINGS_PER_RULE_PER_FILE_def)
    from scan_regexes_total [OF wf this, of T now rule content filePath lineIndex
        "excludeCompiled rule" fs t]
    obtain res' ex' h' fs1 t1 where a:
        "scan_regexes T now rule content filePath lineIndex (compiled rule)
           (excludeCompiled rule, 0, fs, t) = Some (res', ex', h', fs1, t1)"
        "grows rule (0, fs) (h', fs1)" "h' \<le> MAX_FINDINGS_PER_RULE_PER_FILE"
      by blast
    from Cons.IH [OF wfs, of fs1 t1]
    obtain fs' rules' t' where r:
      "scan_rules T now content filePath fileType lineIndex rules (fs1, t1) = Some (fs', rules', t')"
      "\<forall>rid. length (filter (\<lambda>f. ruleId f = rid) fs')
                 \<le> length (filter (\<lambda>f. ruleId f = rid) fs1)
                    + MAX_FINDINGS_PER_RULE_PER_FILE * length (filter (\<lambda>r. rule_id r = rid) rules)"
      by blast
    have "scan_rules T now content filePath fileType lineIndex (rule # rules) (fs, t)
            = Some (fs', rule\<lparr>compiled := res', excludeCompiled := ex'\<rparr> # rules', t')"
      using True a(1) r(1) by simp
    moreover have "\<forall>rid. length (filter (\<lambda>f. ruleId f = rid) fs')
                 \<le> length (filter (\<lambda>f. ruleId f = rid) fs)
                    + MAX_FINDINGS_PER_RULE_PER_FILE
                        * length (filter (\<lambda>r. rule_id r = rid) (rule # rules))"
    proof
      fix rid
      from grows_count [OF a(2), of rid] a(3)
      have "length (filter (\<lambda>f. ruleId f = rid) fs1)
              \<le> length (filter (\<lambda>f. ruleId f = rid) fs)
                 + (if rule_id rule = rid then MAX_FINDINGS_PER_RULE_PER_FILE else 0)"
        by (auto split: if_splits)
      moreover from r(2) have "length (filter (\<lambda>f. ruleId f = rid) fs')
                 \<le> length (filter (\<lambda>f. ruleId f = rid) fs1)
                    + MAX_FINDINGS_PER_RULE_PER_FILE * length (filter (\<lambda>r. rule_id r = rid) rules)"
        by blast
      ultimately show "length (filter (\<lambda>f. ruleId f = rid) fs')
                 \<le> length (filter (\<lambda>f. ruleId f = rid) fs)
                    + MAX_FINDINGS_PER_RULE_PER_FILE
                        * length (filter (\<lambda>r. rule_id r = rid) (rule # rules))"
        by (auto split: if_splits)
    qed
    ultimately show ?thesis by blast
  qed
qed


lemma match_step_zero_length:
  assumes "regex_exec (ls_regex st) content = (Some (i, 0), re')"
    and "match_step T now rule content filePath lineIndex t0 st = Continue st'"
  shows "lastIndex (ls_regex st') = lastIndex re' + 1"
proof -
  have "execWithTimeout now (ls_regex st) content T (ls_tick st) = (None, re', ls_tick st + 2)
      \<or> execWithTimeout now (ls_regex st) content T (ls_tick st) = (Some (i, 0), re', ls_tick st + 2)"
    using assms(1) by (simp add: execWithTimeout_def Let_def)
  with assms(2) show ?thesis
    by (auto simp: match_step_def split: if_splits)
qed

text \<open>
  Claim C1 at a failing input: the file \<open>foo foo\<close> under a rule with the pattern \<open>foo\<close>
  and the exclude pattern \<open>foo\<close>. Both matches are the substring \<open>foo\<close>, which the exclude
  pattern matches, so the claim has no finding. The first match is skipped; the test
  leaves \<open>lastIndex = 3\<close> in the exclude expression, the test of the second match starts
  there, fails, and a finding is emitted on line 1.
\<close>

theorem scanContent_exclude_second_occurrence:
  "find (literal_regex ''foo'') ''foo'' 0 = Some (0, 3)
   \<and> map_option fst
         (scanContent 1000 (\<lambda>k. 0) 0 ''foo foo'' ''a.md'' ''markdown'' [foo_rule])
       = Some [new_finding foo_rule ''a.md'' 1]"
  by code_simp

text \<open>
  Claim C2. For every content, file path, file type and rule list whose expressions are
  well formed, \<open>scanContent\<close> returns, and for every rule id the findings with that id
  number at most \<open>MAX_FINDINGS_PER_RULE_PER_FILE\<close> (which is 20) for each rule of the
  list with that id: each rule contributes at most 20 findings, all its patterns taken
  together. With pairwise distinct rule ids that is at most 20 findings per rule id.
\<close>

theorem scanContent_cap:
  assumes "rules_wf rules"
  shows "\<exists>fs rules' tick'.
           scanContent T now tick content filePath fileType rules = Some (fs, rules', tick')
           \<and> (\<forall>rid. length (filter (\<lambda>f. ruleId f = rid) fs)
                 \<le> MAX_FINDINGS_PER_RULE_PER_FILE * length (filter (\<lambda>r. rule_id r = rid) rules))
           \<and> (distinct (map rule_id rules) \<longrightarrow>
                (\<forall>rid. length (filter (\<lambda>f. ruleId f = rid) fs) \<le> MAX_FINDINGS_PER_RULE_PER_FILE))
           \<and> MAX_FINDINGS_PER_RULE_PER_FILE = 20"
proof -
  from scan_rules_total [OF assms, of T now content filePath fileType "buildLineIndex content" "[]" tick]
  obtain fs rules' tick' where r:
      "scanContent T now tick content filePath fileType rules = Some (fs, rules', tick')"
      "\<forall>rid. length (filter (\<lambda>f. ruleId f = rid) fs)
                 \<le> MAX_FINDINGS_PER_RULE_PER_FILE * length (filter (\<lambda>r. rule_id r = rid) rules)"
    by (auto simp: scanContent_def Let_def)
  have d: "distinct (map rule_id rules) \<longrightarrow>
          (\<forall>rid. length (filter (\<lambda>f. ruleId f = rid) fs) \<le> MAX_FINDINGS_PER_RULE_PER_FILE)"
  proof (intro impI allI)
    fix rid assume d: "distinct (map rule_id rules)"
    have c1: "length (filter (\<lambda>r. rule_id r = rid) rules) \<le> 1"
      using distinct_key_count [OF d, of rid] by simp
    from r(2) have "length (filter (\<lambda>f. ruleId f = rid) fs)
        \<le> MAX_FINDINGS_PER_RULE_PER_FILE * length (filter (\<lambda>r. rule_id r = rid) rules)"
      by (rule spec)
    also have "\<dots> \<le> MAX_FINDINGS_PER_RULE_PER_FILE * 1"
      using c1 by (rule mult_le_mono2)
    finally show "length (filter (\<lambda>f. ruleId f = rid) fs) \<le> MAX_FINDINGS_PER_RULE_PER_FILE"
      by simp
  qed
  have m: "MAX_FINDINGS_PER_RULE_PER_FILE = 20" by (simp add: MAX_FINDINGS_PER_RULE_PER_FILE_def)
  from r d m show ?thesis by blast
qed

text \<open>
  Thirty lines \<open>foo\<close> under a rule with the pattern \<open>foo\<close>: twenty findings.
\<close>

theorem scanContent_cap_witness:
  "rules_wf [foo_rule_plain]
   \<and> map_option (length \<circ> fst)
         (scanContent 1000 (\<lambda>k. 0) 0 thirty_foo ''a.md'' ''markdown'' [foo_rule_plain])
       = Some 20
   \<and> (\<exists>fs rules' tick'.
         scanContent 1000 (\<lambda>k. 0) 0 thirty_foo ''a.md'' ''markdown'' [foo_rule_plain]
           = Some (fs, rules', tick')
         \<and> length (filter (\<lambda>f. ruleId f = ''TEST_RULE'') fs) \<le> 20)"
proof -
  have wf: "rules_wf [foo_rule_plain]"
    by (simp add: rules_wf_def foo_rule_plain_def foo_rule_def literal_regex_wf)
  have run: "map_option (length \<circ> fst)
         (scanContent 1000 (\<lambda>k. 0) 0 thirty_foo ''a.md'' ''markdown'' [foo_rule_plain])
       = Some 20"
    by code_simp
  have one: "length (filter (\<lambda>r. rule_id r = ''TEST_RULE'') [foo_rule_plain]) = 1"
    by (simp add: foo_rule_plain_def foo_rule_def)
  from scanContent_cap [OF wf, of 1000 "\<lambda>k. 0" 0 thirty_foo "''a.md''" "''markdown''"]
  obtain fs rules' tick' where r:
      "scanContent 1000 (\<lambda>k. 0) 0 thirty_foo ''a.md'' ''markdown'' [foo_rule_plain]
         = Some (fs, rules', tick')"
      "\<forall>rid. length (filter (\<lambda>f. ruleId f = rid) fs)
                 \<le> MAX_FINDINGS_PER_RULE_PER_FILE
                      * length (filter (\<lambda>r. rule_id r = rid) [foo_rule_plain])"
      "MAX_FINDINGS_PER_RULE_PER_FILE = 20"
    by blast
  from r(2) have "length (filter (\<lambda>f. ruleId f = ''TEST_RULE'') fs)
                 \<le> MAX_FINDINGS_PER_RULE_PER_FILE
                      * length (filter (\<lambda>r. rule_id r = ''TEST_RULE'') [foo_rule_plain])"
    by (rule spec)
  with one r(3) have "length (filter (\<lambda>f. ruleId f = ''TEST_RULE'') fs) \<le> 20" by simp
  with wf run r(1) show ?thesis by blast
qed

text \<open>
  Claim C3. For every content and every rule list whose expressions are well formed,
  \<open>scanContent\<close> returns. Every run of the loop body after which the loop goes on leaves
  the cursor \<open>lastIndex\<close> of the expression strictly greater than it was before the match
  was sought, and at most one past the end of the content; after a match of length zero
  at index \<open>i\<close> the cursor is \<open>i + 1\<close>.
\<close>

theorem scanContent_terminates:
  assumes "rules_wf rules"
  shows "(\<exists>result. scanContent T now tick content filePath fileType rules = Some result)
       \<and> (\<forall>rule lineIndex t0 st st'.
            regex_wf (ls_regex st)
            \<and> match_step T now rule content filePath lineIndex t0 st = Continue st'
            \<longrightarrow> lastIndex (ls_regex st) < lastIndex (ls_regex st')
                \<and> lastIndex (ls_regex st') \<le> length content + 1
                \<and> (\<forall>i re'. regex_exec (ls_regex st) content = (Some (i, 0), re')
                      \<longrightarrow> lastIndex (ls_regex st') = i + 1))"
proof (intro conjI allI impI)
  from scan_rules_total [OF assms, of T now content filePath fileType "buildLineIndex content" "[]" tick]
  show "\<exists>result. scanContent T now tick content filePath fileType rules = Some result"
    by (auto simp: scanContent_def Let_def)
next
  fix rule lineIndex t0 st st'
  assume h: "regex_wf (ls_regex st)
            \<and> match_step T now rule content filePath lineIndex t0 st = Continue st'"
  then show "lastIndex (ls_regex st) < lastIndex (ls_regex st')"
    and "lastIndex (ls_regex st') \<le> length content + 1"
    using match_step_Continue [of st T now rule content filePath lineIndex t0 st'] by auto
  fix i re'
  assume e: "regex_exec (ls_regex st) content = (Some (i, 0), re')"
  from h regex_exec_Some [OF _ e] have "lastIndex re' = i" by simp
  moreover have "lastIndex (ls_regex st') = lastIndex re' + 1"
    using h by (intro match_step_zero_length [OF e, of T now rule filePath lineIndex t0 st']) simp
  ultimately show "lastIndex (ls_regex st') = i + 1" by simp
qed

text \<open>
  The empty pattern on the content \<open>ab\<close>: it matches with length zero at index 0 and the
  loop goes on with the cursor at 1; the scan ends without findings.
\<close>

theorem scanContent_terminates_witness:
  "rules_wf [empty_pattern_rule]
   \<and> map_option fst
         (scanContent 1000 (\<lambda>k. 0) 0 ''ab'' ''a.md'' ''markdown'' [empty_pattern_rule])
       = Some []
   \<and> regex_wf (ls_regex empty_pattern_start)
   \<and> regex_exec (ls_regex empty_pattern_start) ''ab''
       = (Some (0, 0), ls_regex empty_pattern_start)
   \<and> match_step 1000 (\<lambda>k. 0) empty_pattern_rule ''ab'' ''a.md'' [0] 0 empty_pattern_start
       = Continue (empty_pattern_start
                     \<lparr>ls_regex := (ls_regex empty_pattern_start)\<lparr>lastIndex := 1\<rparr>, ls_tick := 3\<rparr>)
   \<and> lastIndex (ls_regex empty_pattern_start) < 1"
proof -
  have wf: "rules_wf [empty_pattern_rule]"
    by (simp add: rules_wf_def empty_pattern_rule_def foo_rule_def literal_regex_wf)
  have run: "map_option fst
         (scanContent 1000 (\<lambda>k. 0) 0 ''ab'' ''a.md'' ''markdown'' [empty_pattern_rule])
       = Some []"
    by code_simp
  have rwf: "regex_wf (ls_regex empty_pattern_start)"
    by (simp add: empty_pattern_start_def literal_regex_wf)
  have ex: "regex_exec (ls_regex empty_pattern_start) ''ab''
              = (Some (0, 0), ls_regex empty_pattern_start)"
    by (simp add: empty_pattern_start_def literal_regex_def regex_exec_def)
  have step: "match_step 1000 (\<lambda>k. 0) empty_pattern_rule ''ab'' ''a.md'' [0] 0 empty_pattern_start
       = Continue (empty_pattern_start
                     \<lparr>ls_regex := (ls_regex empty_pattern_start)\<lparr>lastIndex := 1\<rparr>, ls_tick := 3\<rparr>)"
    by (simp add: match_step_def execWithTimeout_def regex_exec_def empty_pattern_start_def
        literal_regex_def Let_def)
  from scanContent_terminates [OF wf, of 1000 "\<lambda>k. 0" 0 "''ab''" "''a.md''" "''markdown''"]
    rwf step
  have "lastIndex (ls_regex empty_pattern_start)
          < lastIndex (ls_regex (empty_pattern_start
                     \<lparr>ls_regex := (ls_regex empty_pattern_start)\<lparr>lastIndex := 1\<rparr>, ls_tick := 3\<rparr>))"
    by blast
  then have "lastIndex (ls_regex empty_pattern_start) < 1" by simp
  with wf run rwf ex step show ?thesis by blast
qed

subsection \<open>Fix applier\<close>






lemma trim_nonempty: "length (trim c) \<noteq> 0 \<Longrightarrow> c \<noteq> []"
  by (auto simp: trim_def)






text \<open>The loop over the line numbers.\<close>

lemma fix_lines_step:
  assumes "0 \<le> x - 1" "x - 1 < int (length ls)"
  shows "fix_lines style (x # rest) (ls, ch)
       = fix_lines style rest (ls[nat (x - 1) := fix_line style (ls ! nat (x - 1))],
            ch \<or> fix_line style (ls ! nat (x - 1)) \<noteq> ls ! nat (x - 1))"
  using assms by (auto simp: Let_def fix_line_def)

lemma fix_lines_skip:
  assumes "\<not> (0 \<le> x - 1 \<and> x - 1 < int (length ls))"
  shows "fix_lines style (x # rest) (ls, ch) = fix_lines style rest (ls, ch)"
  using assms by (auto simp: Let_def)



lemma fix_lines_unchanged_flag:
  "fix_lines style lines (ls, ch) = (ls', ch') \<Longrightarrow> ch \<Longrightarrow> ch'"
proof (induction lines arbitrary: ls ch)
  case Nil
  then show ?case by simp
next
  case (Cons x rest)
  show ?case
  proof (cases "0 \<le> x - 1 \<and> x - 1 < int (length ls)")
    case False
    with Cons.prems(1) have "fix_lines style rest (ls, ch) = (ls', ch')"
      by (simp add: fix_lines_skip del: fix_lines.simps)
    from Cons.IH [OF this Cons.prems(2)] show ?thesis .
  next
    case True
    with Cons.prems(1)
    have "fix_lines style rest (ls[nat (x - 1) := fix_line style (ls ! nat (x - 1))],
            ch \<or> fix_line style (ls ! nat (x - 1)) \<noteq> ls ! nat (x - 1)) = (ls', ch')"
      by (simp add: fix_lines_step del: fix_lines.simps)
    from Cons.IH [OF this] Cons.prems(2) show ?thesis by simp
  qed
qed

text \<open>Splitting a text into lines and joining the lines again.\<close>

lemma cons_first_nonempty: "cons_first x xs \<noteq> []"
  by (cases xs) auto


lemma cons_first_set:
  "xs \<noteq> [] \<Longrightarrow> l \<in> set (cons_first c xs) \<Longrightarrow> (\<exists>l'. l = c # l' \<and> l' \<in> set xs) \<or> l \<in> set xs"
  by (cases xs) auto





lemma js_join_Cons: "ls \<noteq> [] \<Longrightarrow> js_join sep (l # ls) = l @ sep @ js_join sep ls"
  by (cases ls) auto




lemma cons_first_split: "xs = l # ls \<Longrightarrow> cons_first c xs = (c # l) # ls"
  by simp


lemma js_includes_tail: "js_includes cs pat \<Longrightarrow> js_includes (c # cs) pat"
  by simp


lemma butlast_cons_first:
  "xs = l # ls \<Longrightarrow> ls \<noteq> [] \<Longrightarrow> butlast (cons_first c xs) = (c # l) # butlast ls"
  by simp













section \<open>Path sanitization: idempotence\<close>

text \<open>Splitting at a separator.\<close>

lemma split_on_nonempty: "split_on sep s \<noteq> []"
  by (induction s) (auto simp: cons_first_nonempty)

lemma split_on_no_sep: "seg \<in> set (split_on sep s) \<Longrightarrow> sep \<notin> set seg"
proof (induction s arbitrary: seg)
  case Nil
  then show ?case by simp
next
  case (Cons c cs)
  show ?case
  proof (cases "c = sep")
    case True
    with Cons show ?thesis by auto
  next
    case False
    with Cons.prems have "seg \<in> set (cons_first c (split_on sep cs))" by simp
    from cons_first_set [OF split_on_nonempty this] Cons.IH False show ?thesis by auto
  qed
qed

lemma cons_first_all:
  "P c \<Longrightarrow> \<forall>seg \<in> set xs. \<forall>x \<in> set seg. P x \<Longrightarrow>
   \<forall>seg \<in> set (cons_first c xs). \<forall>x \<in> set seg. P x"
  by (cases xs) auto

lemma split_on_all:
  "\<forall>c \<in> set s. P c \<Longrightarrow> \<forall>seg \<in> set (split_on sep s). \<forall>c \<in> set seg. P c"
proof (induction s)
  case Nil
  show ?case by simp
next
  case (Cons c cs)
  then have ih: "\<forall>seg \<in> set (split_on sep cs). \<forall>c \<in> set seg. P c" and c: "P c" by auto
  show ?case
  proof (cases "c = sep")
    case True
    with ih show ?thesis by simp
  next
    case False
    with cons_first_all [of P c "split_on sep cs", OF c ih] show ?thesis by simp
  qed
qed

lemma split_on_single: "sep \<notin> set l \<Longrightarrow> split_on sep l = [l]"
  by (induction l) auto

lemma split_on_append: "sep \<notin> set l \<Longrightarrow> split_on sep (l @ sep # rest) = l # split_on sep rest"
  by (induction l) auto

lemma split_on_join:
  "segs \<noteq> [] \<Longrightarrow> \<forall>seg \<in> set segs. sep \<notin> set seg \<Longrightarrow> split_on sep (js_join [sep] segs) = segs"
proof (induction segs rule: list_nonempty_induct)
  case (single seg)
  then show ?case by (simp add: split_on_single)
next
  case (cons seg segs)
  then show ?case by (simp add: js_join_Cons split_on_append)
qed

lemma js_join_all:
  "\<forall>c \<in> set sep. P c \<Longrightarrow> \<forall>seg \<in> set segs. \<forall>c \<in> set seg. P c \<Longrightarrow>
   \<forall>c \<in> set (js_join sep segs). P c"
  by (induction sep segs rule: js_join.induct) auto

text \<open>Normalizing segments.\<close>

lemma normalize_segments_clean:
  "\<forall>seg \<in> set segs. clean_segment seg \<Longrightarrow> normalize_segments a segs res = res @ segs"
  by (induction segs arbitrary: res) (auto simp: clean_segment_def)

lemma normalize_segments_append:
  "normalize_segments a (xs @ ys) res = normalize_segments a ys (normalize_segments a xs res)"
  by (induction xs arbitrary: res) auto

lemma normalize_segments_cases:
  assumes "Q res" "\<And>r. Q r \<Longrightarrow> Q (butlast r)" "\<And>r seg. Q r \<Longrightarrow> seg \<in> set segs \<Longrightarrow> K seg \<Longrightarrow> Q (r @ [seg])"
    and "\<And>seg. seg \<in> set segs \<Longrightarrow> seg \<noteq> [] \<Longrightarrow> seg \<noteq> [CHAR_DOT] \<Longrightarrow> (seg = [CHAR_DOT, CHAR_DOT] \<longrightarrow> a) \<Longrightarrow> K seg"
  shows "Q (normalize_segments a segs res)"
  using assms
proof (induction segs arbitrary: res)
  case Nil
  then show ?case by simp
next
  case (Cons seg segs)
  have step: "\<And>r. Q r \<Longrightarrow> Q (normalize_segments a segs r)"
  proof -
    fix r assume "Q r"
    then show "Q (normalize_segments a segs r)"
      using Cons.prems(2) Cons.prems(3) Cons.prems(4) by (intro Cons.IH) auto
  qed
  show ?case
  proof (cases "seg = [] \<or> seg = [CHAR_DOT]")
    case True
    with step [OF Cons.prems(1)] show ?thesis by auto
  next
    case False
    show ?thesis
    proof (cases "seg = [CHAR_DOT, CHAR_DOT]")
      case dd: True
      show ?thesis
      proof (cases "res \<noteq> [] \<and> last res \<noteq> [CHAR_DOT, CHAR_DOT]")
        case True
        with dd step [OF Cons.prems(2) [OF Cons.prems(1)]] show ?thesis by simp
      next
        case nb: False
        show ?thesis
        proof (cases a)
          case True
          have "K seg" using False dd True by (intro Cons.prems(4)) auto
          then have "Q (res @ [seg])" using Cons.prems(1) by (intro Cons.prems(3)) auto
          with dd nb True step show ?thesis by auto
        next
          case False
          with dd nb step [OF Cons.prems(1)] show ?thesis by auto
        qed
      qed
    next
      case nd: False
      have "K seg" using False nd by (intro Cons.prems(4)) auto
      then have "Q (res @ [seg])" using Cons.prems(1) by (intro Cons.prems(3)) auto
      with False nd step show ?thesis by auto
    qed
  qed
qed

lemma normalize_segments_result_clean:
  assumes "\<forall>seg \<in> set segs. CHAR_FORWARD_SLASH \<notin> set seg"
  shows "list_all clean_segment (normalize_segments False segs [])"
proof (rule normalize_segments_cases [where K = clean_segment])
  show "list_all clean_segment []" by simp
  show "\<And>r. list_all clean_segment r \<Longrightarrow> list_all clean_segment (butlast r)"
    by (auto simp: list_all_iff dest: in_set_butlastD)
  show "\<And>r seg. list_all clean_segment r \<Longrightarrow> seg \<in> set segs \<Longrightarrow> clean_segment seg
          \<Longrightarrow> list_all clean_segment (r @ [seg])"
    by simp
  show "\<And>seg. seg \<in> set segs \<Longrightarrow> seg \<noteq> [] \<Longrightarrow> seg \<noteq> [CHAR_DOT] \<Longrightarrow> (seg = [CHAR_DOT, CHAR_DOT] \<longrightarrow> False)
          \<Longrightarrow> clean_segment seg"
    using assms by (auto simp: clean_segment_def)
qed

lemma normalize_segments_all:
  assumes "\<forall>seg \<in> set segs. \<forall>c \<in> set seg. P c"
  shows "\<forall>seg \<in> set (normalize_segments a segs []). \<forall>c \<in> set seg. P c"
proof (rule normalize_segments_cases [where K = "\<lambda>seg. \<forall>c \<in> set seg. P c"])
  show "\<forall>seg \<in> set []. \<forall>c \<in> set seg. P c" by simp
  show "\<And>r. \<forall>seg \<in> set r. \<forall>c \<in> set seg. P c \<Longrightarrow> \<forall>seg \<in> set (butlast r). \<forall>c \<in> set seg. P c"
    by (auto dest: in_set_butlastD)
  show "\<And>r seg. \<forall>seg \<in> set r. \<forall>c \<in> set seg. P c \<Longrightarrow> seg \<in> set segs \<Longrightarrow> \<forall>c \<in> set seg. P c
          \<Longrightarrow> \<forall>seg \<in> set (r @ [seg]). \<forall>c \<in> set seg. P c"
    by auto
  show "\<And>seg. seg \<in> set segs \<Longrightarrow> seg \<noteq> [] \<Longrightarrow> seg \<noteq> [CHAR_DOT] \<Longrightarrow> (seg = [CHAR_DOT, CHAR_DOT] \<longrightarrow> a)
          \<Longrightarrow> \<forall>c \<in> set seg. P c"
    using assms by auto
qed

lemma normalizeString_all:
  assumes "\<forall>c \<in> set s. P c" "P CHAR_FORWARD_SLASH"
  shows "\<forall>c \<in> set (normalizeString s a). P c"
  unfolding normalizeString_def
  using assms(2) normalize_segments_all [OF split_on_all [OF assms(1)]]
  by (intro js_join_all) auto

lemma split_on_snoc: "split_on sep (s @ [sep]) = split_on sep s @ [[]]"
proof (induction s)
  case Nil
  show ?case by simp
next
  case (Cons c cs)
  obtain x xs where "split_on sep cs = x # xs"
    using split_on_nonempty [of sep cs] by (cases "split_on sep cs") auto
  with Cons show ?case by simp
qed

lemma js_join_nonempty: "segs \<noteq> [] \<Longrightarrow> \<forall>seg \<in> set segs. seg \<noteq> [] \<Longrightarrow> js_join sep segs \<noteq> []"
  by (induction sep segs rule: js_join.induct) auto

lemma js_join_last:
  "segs \<noteq> [] \<Longrightarrow> \<forall>seg \<in> set segs. seg \<noteq> [] \<Longrightarrow> last (js_join sep segs) = last (last segs)"
proof (induction segs rule: list_nonempty_induct)
  case (single seg)
  show ?case by simp
next
  case (cons seg segs)
  then have "js_join sep segs \<noteq> []" by (intro js_join_nonempty) auto
  with cons show ?case by (simp add: js_join_Cons)
qed

text \<open>Absolute normal paths.\<close>

lemma abs_normal_normalizeString: "abs_normal (CHAR_FORWARD_SLASH # normalizeString s False)"
proof -
  have "list_all clean_segment (normalize_segments False (split_on CHAR_FORWARD_SLASH s) [])"
    by (intro normalize_segments_result_clean ballI split_on_no_sep)
  then show ?thesis unfolding abs_normal_def normalizeString_def by blast
qed

lemma path_resolve_abs_normal:
  assumes "cwd \<noteq> []" "hd cwd = CHAR_FORWARD_SLASH"
  shows "abs_normal (path_resolve cwd p)"
  using assms by (simp add: path_resolve_def abs_normal_normalizeString)

lemma abs_normal_hd: "abs_normal r \<Longrightarrow> r \<noteq> [] \<and> hd r = CHAR_FORWARD_SLASH"
  by (auto simp: abs_normal_def)

lemma abs_normal_segments:
  assumes "list_all clean_segment segs"
  shows "normalize_segments a (split_on CHAR_FORWARD_SLASH
           (CHAR_FORWARD_SLASH # js_join [CHAR_FORWARD_SLASH] segs)) [] = segs"
proof (cases "segs = []")
  case True
  then show ?thesis by simp
next
  case False
  from assms have clean: "\<forall>seg \<in> set segs. clean_segment seg" by (simp add: list_all_iff)
  then have "\<forall>seg \<in> set segs. CHAR_FORWARD_SLASH \<notin> set seg" by (simp add: clean_segment_def)
  with False have "split_on CHAR_FORWARD_SLASH (js_join [CHAR_FORWARD_SLASH] segs) = segs"
    by (rule split_on_join)
  then show ?thesis using normalize_segments_clean [OF clean, of a "[]"] by simp
qed

lemma abs_normal_normalizeString_id:
  assumes "abs_normal r"
  shows "normalizeString r a = tl r" "normalizeString (r @ [CHAR_FORWARD_SLASH]) a = tl r"
proof -
  from assms obtain segs where segs: "list_all clean_segment segs"
    and r: "r = CHAR_FORWARD_SLASH # js_join [CHAR_FORWARD_SLASH] segs"
    unfolding abs_normal_def by blast
  from abs_normal_segments [OF segs, of a]
  show "normalizeString r a = tl r" by (simp add: normalizeString_def r)
  have "normalize_segments a (split_on CHAR_FORWARD_SLASH (r @ [CHAR_FORWARD_SLASH])) []
          = normalize_segments a [[]] (normalize_segments a (split_on CHAR_FORWARD_SLASH r) [])"
    by (simp only: split_on_snoc normalize_segments_append)
  also have "\<dots> = segs" using abs_normal_segments [OF segs, of a] by (simp add: r)
  finally show "normalizeString (r @ [CHAR_FORWARD_SLASH]) a = tl r"
    by (simp add: normalizeString_def r)
qed

lemma abs_normal_no_trailing:
  assumes "abs_normal r" "tl r \<noteq> []"
  shows "last r \<noteq> CHAR_FORWARD_SLASH"
proof -
  from assms(1) obtain segs where segs: "list_all clean_segment segs"
    and r: "r = CHAR_FORWARD_SLASH # js_join [CHAR_FORWARD_SLASH] segs"
    unfolding abs_normal_def by blast
  from assms(2) r have ne: "segs \<noteq> []" by auto
  from segs have clean: "\<forall>seg \<in> set segs. clean_segment seg" by (simp add: list_all_iff)
  then have all_ne: "\<forall>seg \<in> set segs. seg \<noteq> []" by (simp add: clean_segment_def)
  from ne clean have l: "clean_segment (last segs)" by simp
  have "last r = last (js_join [CHAR_FORWARD_SLASH] segs)" using assms(2) r by simp
  also have "\<dots> = last (last segs)" using ne all_ne by (rule js_join_last)
  finally have "last r \<in> set (last segs)" using l by (simp add: clean_segment_def)
  with l show ?thesis by (auto simp: clean_segment_def)
qed

lemma path_normalize_abs_normal:
  assumes "abs_normal r"
  shows "path_normalize r = r"
proof -
  from abs_normal_hd [OF assms] have ne: "r \<noteq> []" and hd: "hd r = CHAR_FORWARD_SLASH" by simp_all
  then have r: "r = CHAR_FORWARD_SLASH # tl r" by (cases r) auto
  note n = abs_normal_normalizeString_id(1) [OF assms, of False]
  show ?thesis
  proof (cases "tl r = []")
    case True
    with ne hd n have "path_normalize r = [CHAR_FORWARD_SLASH]"
      by (simp add: path_normalize_def)
    with r True show ?thesis by simp
  next
    case False
    from abs_normal_no_trailing [OF assms False] False ne hd n
    have "path_normalize r = CHAR_FORWARD_SLASH # tl r"
      by (simp add: path_normalize_def)
    with r show ?thesis by simp
  qed
qed

lemma path_resolve_abs_normal_id:
  assumes "abs_normal r"
  shows "path_resolve cwd r = r"
proof -
  from abs_normal_hd [OF assms] have ne: "r \<noteq> []" and hd: "hd r = CHAR_FORWARD_SLASH" by simp_all
  then have r: "r = CHAR_FORWARD_SLASH # tl r" by (cases r) auto
  from ne hd abs_normal_normalizeString_id(2) [OF assms, of False]
  have "path_resolve cwd r = CHAR_FORWARD_SLASH # tl r"
    by (simp add: path_resolve_def)
  with r show ?thesis by simp
qed

lemma sanitizePath_abs_normal_id:
  assumes "abs_normal r" "0 \<notin> set r"
  shows "sanitizePath cwd home r = r"
proof -
  from abs_normal_hd [OF assms(1)] obtain t where r: "r = CHAR_FORWARD_SLASH # t" by (cases r) auto
  from assms(2) have f: "filter (\<lambda>c. c \<noteq> 0) r = r" by (auto intro: filter_True)
  have "\<not> prefix [0x7E, CHAR_FORWARD_SLASH] r" "r \<noteq> [0x7E]" using r by auto
  with f show ?thesis
    by (simp add: sanitizePath_def path_normalize_abs_normal [OF assms(1)]
          path_resolve_abs_normal_id [OF assms(1)])
qed

text \<open>Code units of the result.\<close>

lemma path_normalize_all:
  assumes "\<forall>c \<in> set s. P c" "P CHAR_FORWARD_SLASH" "P CHAR_DOT"
  shows "\<forall>c \<in> set (path_normalize s). P c"
proof -
  define p where "p = normalizeString s (hd s \<noteq> CHAR_FORWARD_SLASH)"
  have p: "\<forall>c \<in> set p. P c" unfolding p_def using assms(1,2) by (rule normalizeString_all)
  have "path_normalize s = [CHAR_DOT] \<or> path_normalize s = [CHAR_FORWARD_SLASH]
          \<or> path_normalize s = [CHAR_DOT, CHAR_FORWARD_SLASH]
          \<or> path_normalize s = CHAR_FORWARD_SLASH # p @ [CHAR_FORWARD_SLASH]
          \<or> path_normalize s = CHAR_FORWARD_SLASH # p
          \<or> path_normalize s = p @ [CHAR_FORWARD_SLASH] \<or> path_normalize s = p"
    unfolding path_normalize_def Let_def p_def by simp
  with p assms(2,3) show ?thesis by (elim disjE) simp_all
qed

lemma path_resolve_all:
  assumes "\<forall>c \<in> set s. P c" "\<forall>c \<in> set cwd. P c" "P CHAR_FORWARD_SLASH" "P CHAR_DOT"
  shows "\<forall>c \<in> set (path_resolve cwd s). P c"
proof -
  define t where "t = (if s = [] then [] else s @ [CHAR_FORWARD_SLASH])"
  define abs1 where "abs1 \<longleftrightarrow> s \<noteq> [] \<and> hd s = CHAR_FORWARD_SLASH"
  define t' where "t' = (if abs1 \<or> cwd = [] then t else cwd @ [CHAR_FORWARD_SLASH] @ t)"
  define abs' where "abs' \<longleftrightarrow> (if abs1 \<or> cwd = [] then abs1 else hd cwd = CHAR_FORWARD_SLASH)"
  define r where "r = normalizeString t' (\<not> abs')"
  have "\<forall>c \<in> set t. P c" using assms(1,3) by (simp add: t_def)
  then have "\<forall>c \<in> set t'. P c" using assms(2,3) by (auto simp: t'_def)
  then have r: "\<forall>c \<in> set r. P c" unfolding r_def using assms(3) by (rule normalizeString_all)
  have "path_resolve cwd s = (if abs' then CHAR_FORWARD_SLASH # r else if r \<noteq> [] then r else [CHAR_DOT])"
    unfolding path_resolve_def r_def abs'_def t'_def abs1_def t_def by simp
  with r assms(3,4) show ?thesis by simp
qed

lemma expand_replacement_all:
  assumes "\<forall>c \<in> set m. P c" "\<forall>c \<in> set b. P c" "\<forall>c \<in> set a. P c" "\<forall>c \<in> set repl. P c"
  shows "\<forall>c \<in> set (expand_replacement m b a repl). P c"
  using assms by (induction m b a repl rule: expand_replacement.induct) auto

lemma expand_replacement_plain: "0x24 \<notin> set repl \<Longrightarrow> expand_replacement m b a repl = repl"
  by (induction m b a repl rule: expand_replacement.induct) auto

text \<open>
  Claim C6. Let the working directory be an absolute path and let neither it nor the home
  directory hold a null code unit, as the operating system has them. Then for every
  string \<open>p\<close>, the empty one included, \<open>sanitizePath (sanitizePath p) = sanitizePath p\<close>;
  the result is an absolute path in normal form (a slash followed by segments joined with
  slashes, none of them empty, \<open>.\<close> or \<open>..\<close>) and holds no null code unit; and when
  \<open>p\<close> without its null code units is \<open>~\<close> or starts with \<open>~/\<close>, and the home directory
  holds no dollar sign, the result is the resolved normal form of the home directory
  followed by the rest of \<open>p\<close>.
\<close>

theorem sanitizePath_idempotent:
  assumes "cwd \<noteq> []" "hd cwd = CHAR_FORWARD_SLASH" "0 \<notin> set cwd" "0 \<notin> set home"
  shows "sanitizePath cwd home (sanitizePath cwd home p) = sanitizePath cwd home p
       \<and> abs_normal (sanitizePath cwd home p)
       \<and> hd (sanitizePath cwd home p) = CHAR_FORWARD_SLASH
       \<and> 0 \<notin> set (sanitizePath cwd home p)
       \<and> (0x24 \<notin> set home \<longrightarrow>
            (\<forall>rest. filter (\<lambda>c. c \<noteq> 0x00) p = 0x7E # rest
                      \<and> (rest = [] \<or> hd rest = CHAR_FORWARD_SLASH)
               \<longrightarrow> sanitizePath cwd home p = path_resolve cwd (path_normalize (home @ rest))))"
proof -
  define cleaned where "cleaned = filter (\<lambda>c. c \<noteq> 0x00) p"
  define expanded where "expanded =
    (if prefix [0x7E, CHAR_FORWARD_SLASH] cleaned \<or> cleaned = [0x7E]
     then expand_replacement [0x7E] [] (tl cleaned) home @ tl cleaned else cleaned)"
  have s: "sanitizePath cwd home p = path_resolve cwd (path_normalize expanded)"
    by (simp add: sanitizePath_def expanded_def cleaned_def Let_def)
  have an: "abs_normal (sanitizePath cwd home p)"
    unfolding s using assms(1,2) by (rule path_resolve_abs_normal)
  have c: "\<forall>c \<in> set cleaned. c \<noteq> 0" by (simp add: cleaned_def)
  then have t: "\<forall>c \<in> set (tl cleaned). c \<noteq> 0" by (cases cleaned) simp_all
  have "\<forall>c \<in> set (expand_replacement [0x7E] [] (tl cleaned) home). c \<noteq> 0"
    using assms(4) t by (intro expand_replacement_all) auto
  with c t have "\<forall>c \<in> set expanded. c \<noteq> 0" by (auto simp: expanded_def)
  then have "\<forall>c \<in> set (path_normalize expanded). c \<noteq> 0"
    by (rule path_normalize_all) simp_all
  then have "\<forall>c \<in> set (path_resolve cwd (path_normalize expanded)). c \<noteq> 0"
    using assms(3) by (intro path_resolve_all) auto
  then have nul: "0 \<notin> set (sanitizePath cwd home p)" unfolding s by blast
  have idem: "sanitizePath cwd home (sanitizePath cwd home p) = sanitizePath cwd home p"
    using an nul by (rule sanitizePath_abs_normal_id)
  have tilde: "sanitizePath cwd home p = path_resolve cwd (path_normalize (home @ rest))"
    if h: "0x24 \<notin> set home" and r: "filter (\<lambda>c. c \<noteq> 0x00) p = 0x7E # rest"
      and sl: "rest = [] \<or> hd rest = CHAR_FORWARD_SLASH" for rest
  proof -
    from r have cl: "cleaned = 0x7E # rest" by (simp add: cleaned_def)
    from sl have "prefix [0x7E, CHAR_FORWARD_SLASH] cleaned \<or> cleaned = [0x7E]"
      unfolding cl by (cases rest) auto
    then have "expanded = expand_replacement [0x7E] [] rest home @ rest"
      by (simp add: expanded_def cl)
    also have "\<dots> = home @ rest" using h by (simp add: expand_replacement_plain)
    finally show ?thesis by (simp add: s)
  qed
  from an idem nul abs_normal_hd [OF an] tilde show ?thesis by blast
qed

theorem sanitizePath_idempotent_witness:
  "js ''/work/dir'' \<noteq> [] \<and> hd (js ''/work/dir'') = CHAR_FORWARD_SLASH
   \<and> list_all (\<lambda>c. c \<noteq> 0) (js ''/work/dir'') \<and> list_all (\<lambda>c. c \<noteq> 0) (js ''/home/u'')
   \<and> list_all (\<lambda>c. c \<noteq> 0x24) (js ''/home/u'')
   \<and> filter (\<lambda>c. c \<noteq> 0x00) (js ''~/test'') = 0x7E # js ''/test''
   \<and> hd (js ''/test'') = CHAR_FORWARD_SLASH
   \<and> sanitizePath (js ''/work/dir'') (js ''/home/u'') (js ''~/test'') = js ''/home/u/test''
   \<and> path_resolve (js ''/work/dir'') (path_normalize (js ''/home/u'' @ js ''/test''))
        = js ''/home/u/test''
   \<and> sanitizePath (js ''/work/dir'') (js ''/home/u'') (js ''/home/u/test'') = js ''/home/u/test''
   \<and> abs_normal (js ''/home/u/test'')
   \<and> list_all (\<lambda>c. c \<noteq> 0) (js ''/home/u/test'')"
proof -
  let ?cwd = "js ''/work/dir''" and ?home = "js ''/home/u''" and ?p = "js ''~/test''"
  have h1: "?cwd \<noteq> []" and h2: "hd ?cwd = CHAR_FORWARD_SLASH"
    and h3: "0 \<notin> set ?cwd" and h4: "0 \<notin> set ?home" and h5: "0x24 \<notin> set ?home"
    by (simp_all add: js_def)
  have f: "filter (\<lambda>c. c \<noteq> 0x00) ?p = 0x7E # js ''/test''"
    and sl: "hd (js ''/test'') = CHAR_FORWARD_SLASH"
    by (simp_all add: js_def)
  have v: "sanitizePath ?cwd ?home ?p = js ''/home/u/test''"
    by code_simp
  note inst = sanitizePath_idempotent [OF h1 h2 h3 h4, of ?p]
  from inst have "sanitizePath ?cwd ?home (sanitizePath ?cwd ?home ?p) = sanitizePath ?cwd ?home ?p"
    by (rule conjunct1)
  then have idem: "sanitizePath ?cwd ?home (js ''/home/u/test'') = js ''/home/u/test''"
    by (simp only: v)
  from inst have "abs_normal (sanitizePath ?cwd ?home ?p)"
    by (rule conjunct2 [THEN conjunct1])
  then have an: "abs_normal (js ''/home/u/test'')" by (simp only: v)
  from inst have "0 \<notin> set (sanitizePath ?cwd ?home ?p)"
    by (rule conjunct2 [THEN conjunct2, THEN conjunct2, THEN conjunct1])
  then have nul: "list_all (\<lambda>c. c \<noteq> 0) (js ''/home/u/test'')"
    unfolding v by (auto simp: list_all_iff)
  from inst have "0x24 \<notin> set ?home \<longrightarrow>
            (\<forall>rest. filter (\<lambda>c. c \<noteq> 0x00) ?p = 0x7E # rest
                      \<and> (rest = [] \<or> hd rest = CHAR_FORWARD_SLASH)
               \<longrightarrow> sanitizePath ?cwd ?home ?p = path_resolve ?cwd (path_normalize (?home @ rest)))"
    by (rule conjunct2 [THEN conjunct2, THEN conjunct2, THEN conjunct2])
  with h5 f sl have "sanitizePath ?cwd ?home ?p
      = path_resolve ?cwd (path_normalize (?home @ js ''/test''))"
    by blast
  then have ex: "path_resolve ?cwd (path_normalize (?home @ js ''/test'')) = js ''/home/u/test''"
    by (simp only: v)
  from h1 h2 h3 h4 h5 f sl v ex idem an nul show ?thesis
    by (simp only: list_all_iff simp_thms) blast
qed

text \<open>
  Claim C6 at a failing input: the home directory \<open>/home/a$$b\<close> and the path \<open>~/x\<close>. The
  home directory is handed to \<open>replace\<close> as the replacement string, where \<open>$$\<close> stands for
  one dollar sign, so the result lies under \<open>/home/a$b\<close>, which is not the home
  directory.
\<close>

theorem sanitizePath_home_dollar_counterexample:
  "sanitizePath (js ''/work/dir'') (js ''/home/a$$b'') (js ''~/x'') = js ''/home/a$b/x''
   \<and> path_resolve (js ''/work/dir'') (path_normalize (js ''/home/a$$b'' @ js ''/x''))
        = js ''/home/a$$b/x''
   \<and> js ''/home/a$b/x'' \<noteq> js ''/home/a$$b/x''"
  by code_simp

end
